theory Spec2Isabelle
  imports Complex_Main "HOL-Library.AList"
begin

section \<open>Python values the pipeline works on\<close>

text \<open>
  A Python \<^verbatim>\<open>str\<close> is a sequence of Unicode code points, so a string is a list of
  naturals (\<open>len\<close> is \<open>length\<close>, the CJK range of the regular expressions is a range of
  numbers). A literal of the source is written \<open>pys ''...''\<close>.

  A Python \<^verbatim>\<open>float\<close> is modelled by a real number: the comparisons, \<open>max\<close> and
  \<open>min\<close> of the source are exact on floats, the products and sums are taken without
  rounding.
\<close>

type_synonym pystr = "nat list"

definition pys :: "string \<Rightarrow> pystr" where
  "pys s = map of_char s"

text \<open>
  The values of a parsed JSON document (\<^verbatim>\<open>dict[str, Any]\<close> in the source). A dict is
  an association list in insertion order; \<^verbatim>\<open>d[k] = v\<close> is \<open>AList.update k v d\<close>, which
  keeps the position of a key already there and appends a new one. Keys are values too:
  \<^verbatim>\<open>dict(x)\<close> on a list of pairs can build keys that are not strings.
\<close>

datatype pyval =
    PNone
  | PBool bool
  | PNum real
  | PStr pystr
  | PList "pyval list"
  | PDict "(pyval \<times> pyval) list"

type_synonym pydict = "(pyval \<times> pyval) list"

text \<open>
  What the code calls from the Python runtime and its libraries, taken as parameters:
  \<^item> \<open>lower\<close>: \<^verbatim>\<open>str.lower\<close> (the Unicode case mapping);
  \<^item> \<open>sha12\<close>: the first 12 hex digits of \<^verbatim>\<open>hashlib.sha1(s.encode("utf-8", "ignore"))\<close>;
  \<^item> \<open>set_iter\<close>: the order in which a \<^verbatim>\<open>set\<close> built by adding the given elements
    one after the other is iterated (it depends on the hash seed);
  \<^item> \<open>str_of\<close>: \<^verbatim>\<open>str(x)\<close> on a value that is not a string;
  \<^item> \<open>lax_float\<close>, \<open>lax_int\<close>, \<open>lax_bool\<close>: the values Pydantic accepts (and what
    it converts them to) for a field declared \<^verbatim>\<open>float\<close>, \<^verbatim>\<open>int\<close>, \<^verbatim>\<open>bool\<close>.
\<close>

record runtime =
  lower :: "pystr \<Rightarrow> pystr"
  sha12 :: "pystr \<Rightarrow> pystr"
  set_iter :: "pystr list \<Rightarrow> pystr list"
  str_of :: "pyval \<Rightarrow> pystr"
  lax_float :: "pyval \<Rightarrow> real option"
  lax_int :: "pyval \<Rightarrow> int option"
  lax_bool :: "pyval \<Rightarrow> bool option"

text \<open>
  What is known of these functions: iterating a set yields each of its elements once, and
  a SHA-1 prefix of 12 hex digits is not the empty string.
\<close>

definition runtime_ok :: "runtime \<Rightarrow> bool" where
  "runtime_ok rt \<longleftrightarrow>
     (\<forall>xs. distinct (set_iter rt xs) \<and> set (set_iter rt xs) = set xs) \<and>
     (\<forall>s. length (sha12 rt s) = 12)"

text \<open>
  A runtime to evaluate the model on concrete inputs: the case mapping on ASCII, the
  insertion order for sets, a placeholder of 12 digits for the digest, and the strict
  readings of Pydantic's conversions.
\<close>

definition ascii_lower :: "pystr \<Rightarrow> pystr" where
  "ascii_lower s = map (\<lambda>c. if 65 \<le> c \<and> c \<le> 90 then c + 32 else c) s"

definition rt0 :: runtime where
  "rt0 = \<lparr> lower = ascii_lower,
           sha12 = (\<lambda>s. replicate 12 48),
           set_iter = remdups,
           str_of = (\<lambda>v. []),
           lax_float = (\<lambda>v. case v of PNum x \<Rightarrow> Some x | _ \<Rightarrow> None),
           lax_int = (\<lambda>v. case v of PNum x \<Rightarrow> (if x \<in> \<int> then Some \<lfloor>x\<rfloor> else None) | _ \<Rightarrow> None),
           lax_bool = (\<lambda>v. case v of PBool b \<Rightarrow> Some b | _ \<Rightarrow> None) \<rparr>"

subsection \<open>String operations\<close>

text \<open>\<^verbatim>\<open>str.isspace\<close>, which is also the class \<^verbatim>\<open>\s\<close> of a Unicode pattern.\<close>

definition isspace :: "nat \<Rightarrow> bool" where
  "isspace c \<longleftrightarrow>
     (9 \<le> c \<and> c \<le> 13) \<or> (28 \<le> c \<and> c \<le> 32) \<or> c = 133 \<or> c = 160 \<or> c = 5760 \<or>
     (8192 \<le> c \<and> c \<le> 8202) \<or> c = 8232 \<or> c = 8233 \<or> c = 8239 \<or> c = 8287 \<or> c = 12288"

text \<open>\<^verbatim>\<open>s.strip()\<close>\<close>

definition strip :: "pystr \<Rightarrow> pystr" where
  "strip s = rev (dropWhile isspace (rev (dropWhile isspace s)))"

text \<open>\<^verbatim>\<open>p in s\<close> on strings: \<open>p\<close> occurs in \<open>s\<close> as a contiguous substring.\<close>

fun starts_with :: "pystr \<Rightarrow> pystr \<Rightarrow> bool" where
  "starts_with [] s = True"
| "starts_with (p # ps) [] = False"
| "starts_with (p # ps) (c # cs) = (p = c \<and> starts_with ps cs)"

fun str_in :: "pystr \<Rightarrow> pystr \<Rightarrow> bool" where
  "str_in p [] = (p = [])"
| "str_in p (c # cs) = (starts_with p (c # cs) \<or> str_in p cs)"

text \<open>\<^verbatim>\<open>s.split(" ")\<close>: the pieces between single spaces, empty pieces kept.\<close>

fun split_sp :: "pystr \<Rightarrow> pystr list" where
  "split_sp [] = [[]]"
| "split_sp (c # cs) =
     (if c = 32 then [] # split_sp cs
      else (case split_sp cs of [] \<Rightarrow> [[c]] | w # ws \<Rightarrow> (c # w) # ws))"

subsection \<open>The three substitutions of the name normalisation\<close>

text \<open>
  \<^verbatim>\<open>re.sub(r"\(.*?\)", "", s)\<close>. At an opening parenthesis the lazy \<^verbatim>\<open>.*?\<close> runs to
  the first closing parenthesis, and fails at a newline (\<^verbatim>\<open>.\<close> does not match it);
  \<open>after_paren\<close> gives the text after that closing parenthesis.
\<close>

fun after_paren :: "pystr \<Rightarrow> pystr option" where
  "after_paren [] = None"
| "after_paren (c # cs) =
     (if c = 41 then Some cs else if c = 10 then None else after_paren cs)"

function sub_parens :: "pystr \<Rightarrow> pystr" where
  "sub_parens [] = []"
| "sub_parens (c # cs) =
     (if c = 40 then
        (case after_paren cs of
           Some rest \<Rightarrow> sub_parens rest
         | None \<Rightarrow> c # sub_parens cs)
      else c # sub_parens cs)"
  by pat_completeness auto
termination
proof -
  have shorter: "length r \<le> length cs" if "after_paren cs = Some r" for cs r
    using that by (induction cs) (auto split: if_splits)
  show ?thesis
    by (relation "measure length") (auto dest: shorter)
qed

text \<open>The class \<^verbatim>\<open>[a-z0-9\u4e00-\u9fff]\<close>: the characters the normalisation keeps.\<close>

definition keeps :: "nat \<Rightarrow> bool" where
  "keeps c \<longleftrightarrow> (97 \<le> c \<and> c \<le> 122) \<or> (48 \<le> c \<and> c \<le> 57) \<or> (19968 \<le> c \<and> c \<le> 40959)"

text \<open>
  \<^verbatim>\<open>re.sub(r"[^a-z0-9\u4e00-\u9fff]+", " ", s)\<close> and \<^verbatim>\<open>re.sub(r"\s+", " ", s)\<close>:
  every maximal run of characters of the class \<open>P\<close> becomes one space.
\<close>

function sub_runs :: "(nat \<Rightarrow> bool) \<Rightarrow> pystr \<Rightarrow> pystr" where
  "sub_runs P [] = []"
| "sub_runs P (c # cs) =
     (if P c then 32 # sub_runs P (dropWhile P cs) else c # sub_runs P cs)"
  by pat_completeness auto
termination
  by (relation "measure (\<lambda>(P, s). length s)")
     (auto simp: le_imp_less_Suc length_dropWhile_le)


section \<open>The data model (\<^verbatim>\<open>models.py\<close>)\<close>

text \<open>
  The Pydantic classes as records. The fields \<^verbatim>\<open>id\<close> are \<open>node_id\<close> and \<open>edge_id\<close>,
  the \<^verbatim>\<open>domain\<close> of an evidence is \<open>ev_domain\<close>, the \<^verbatim>\<open>confidence\<close> of a node is
  \<open>node_confidence\<close>.
\<close>

record Evidence =
  title :: pystr
  snippet :: pystr
  url :: "pystr option"
  ev_domain :: "pystr option"

record Node =
  node_id :: pystr
  name :: pystr
  domain :: pystr
  definition_of :: "pystr option"
  node_confidence :: real

record Edge =
  edge_id :: "pystr option"
  source :: pystr
  target :: pystr
  relation :: pystr
  explanation :: pystr
  evidence :: Evidence
  confidence :: real
  checked :: bool
  check_reason :: "pystr option"
  flags :: "pystr list"

record CheckerSummary =
  schema_fixed :: nat
  edges_checked :: nat
  edges_failed :: nat
  edges_downgraded :: nat
  dedup_nodes_merged :: nat
  dedup_edges_removed :: nat
  conflicts_flagged :: nat
  passed :: nat
  failed :: nat

record Meta =
  generated_at :: pystr
  version :: pystr
  checker_summary :: CheckerSummary
  agent_trace :: "pyval option"

record GraphResult =
  concept :: pystr
  nodes :: "Node list"
  edges :: "Edge list"
  meta :: Meta

text \<open>
  \<^verbatim>\<open>Edge.ensure_id\<close>: an id that is \<^verbatim>\<open>None\<close> or empty is replaced by the digest of
  \<^verbatim>\<open>f"{source}|{relation}|{target}"\<close>.
\<close>

definition ensure_id :: "runtime \<Rightarrow> Edge \<Rightarrow> Edge" where
  "ensure_id rt e =
     (if edge_id e \<noteq> None \<and> edge_id e \<noteq> Some [] then e
      else e\<lparr>edge_id := Some (sha12 rt (source e @ pys ''|'' @ relation e @ pys ''|'' @ target e))\<rparr>)"

section \<open>The evidence checker (\<^verbatim>\<open>tools/checker.py\<close>)\<close>

definition clamp01 :: "real \<Rightarrow> real" where
  "clamp01 x = max 0 (min 1 x)"

definition norm :: "runtime \<Rightarrow> pystr \<Rightarrow> pystr" where
  "norm rt s =
     (let s1 = lower rt s;
          s2 = sub_parens s1;
          s3 = sub_runs (\<lambda>c. \<not> keeps c) s2
      in strip (sub_runs isspace s3))"

text \<open>The local function \<^verbatim>\<open>_mentions\<close> of \<^verbatim>\<open>evidence_check\<close>; \<open>sn\<close> is the normalised snippet.\<close>

definition mentions :: "pystr \<Rightarrow> pystr \<Rightarrow> bool" where
  "mentions sn nm =
     (if nm = [] then False
      else (let parts = filter (\<lambda>p. 4 \<le> length p) (split_sp nm)
            in if parts = [] then str_in nm sn
               else list_ex (\<lambda>p. str_in p sn) (take 4 parts)))"

text \<open>
  The number \<^verbatim>\<open>overlap\<close>: of the first 12 tokens of the set of the snippet's tokens of
  length at least 6, those that occur in the normalised explanation.
\<close>

definition long_tokens :: "pystr \<Rightarrow> pystr list" where
  "long_tokens sn = filter (\<lambda>t. 6 \<le> length t) (split_sp sn)"

definition overlap :: "runtime \<Rightarrow> pystr \<Rightarrow> pystr \<Rightarrow> nat" where
  "overlap rt sn ex = length (filter (\<lambda>t. str_in t ex) (take 12 (set_iter rt (long_tokens sn))))"

definition evidence_check :: "runtime \<Rightarrow> Edge \<Rightarrow> pystr \<Rightarrow> pystr \<Rightarrow> bool \<times> real \<times> pystr" where
  "evidence_check rt edge source_name target_name =
     (if \<not> (title (evidence edge) \<noteq> [] \<and> snippet (evidence edge) \<noteq> []) then
        (False, 0, pys ''Missing evidence.title or evidence.snippet.'')
      else if strip (explanation edge) = [] then
        (False, 0, pys ''Missing explanation.'')
      else
        (let sn = norm rt (snippet (evidence edge));
             sname = norm rt source_name;
             tname = norm rt target_name
         in if sn = [] then (False, 0, pys ''Empty evidence snippet.'')
            else if \<not> (mentions sn sname \<or> mentions sn tname) then
              (False, 0.15, pys ''Evidence snippet does not mention source/target concept.'')
            else
              (let ex = norm rt (explanation edge);
                   score = clamp01 (0.55 + 0.07 * real (overlap rt sn ex))
               in (True, score, pys ''Evidence supports the relation.''))))"

text \<open>The dict \<^verbatim>\<open>{n.id: n.name for n in graph.nodes}\<close>: a later node overrides an earlier one.\<close>

definition node_names :: "Node list \<Rightarrow> pystr \<rightharpoonup> pystr" where
  "node_names ns = fold (\<lambda>n m. m(node_id n \<mapsto> name n)) ns Map.empty"

definition dict_get :: "('k \<rightharpoonup> 'v) \<Rightarrow> 'k \<Rightarrow> 'v \<Rightarrow> 'v" where
  "dict_get m k d = (case m k of None \<Rightarrow> d | Some v \<Rightarrow> v)"

definition allowed_relations :: "pystr list" where
  "allowed_relations =
     [pys ''related_to'', pys ''used_in'', pys ''is_a'', pys ''explains'', pys ''bridges'']"

text \<open>
  One iteration of the loop of \<^verbatim>\<open>run_check\<close> on the edge \<open>e\<close>: the edge as it is
  appended to \<^verbatim>\<open>edges\<close>, whether it passed, and whether its relation was downgraded.
\<close>

definition check_edge :: "runtime \<Rightarrow> bool \<Rightarrow> (pystr \<rightharpoonup> pystr) \<Rightarrow> Edge \<Rightarrow> Edge \<times> bool \<times> bool" where
  "check_edge rt strict node_name e0 =
     (let e1 = ensure_id rt e0;
          sname = dict_get node_name (source e1) (source e1);
          tname = dict_get node_name (target e1) (target e1);
          down = (relation e1 \<notin> set allowed_relations);
          e2 = (if down
                then e1\<lparr>relation := pys ''related_to'', flags := flags e1 @ [pys ''downgraded'']\<rparr>
                else e1)
      in case evidence_check rt e2 sname tname of
           (ok, score, reason) \<Rightarrow>
             (if ok then
                (e2\<lparr>checked := True,
                    confidence := clamp01 ((confidence e2 + score) / 2),
                    check_reason := Some reason\<rparr>, True, down)
              else
                (let e3 = e2\<lparr>checked := False,
                              confidence := clamp01 (confidence e2 * 0.45),
                              check_reason := Some reason\<rparr>
                 in (if strict
                     then e3\<lparr>explanation :=
                            (if explanation e3 \<noteq> [] then explanation e3
                             else pys ''No supported evidence found; marked as unchecked.'')\<rparr>
                     else e3, False, down))))"

text \<open>
  The loop, with its counters \<^verbatim>\<open>(edges, passed, failed, downgraded, checked_total)\<close>.
\<close>

fun check_loop ::
  "runtime \<Rightarrow> bool \<Rightarrow> (pystr \<rightharpoonup> pystr) \<Rightarrow> Edge list \<Rightarrow>
   Edge list \<times> nat \<times> nat \<times> nat \<times> nat \<Rightarrow> Edge list \<times> nat \<times> nat \<times> nat \<times> nat" where
  "check_loop rt strict node_name [] acc = acc"
| "check_loop rt strict node_name (e # es) (out, n_passed, n_failed, n_down, n_total) =
     (case check_edge rt strict node_name e of
        (e', ok, down) \<Rightarrow>
          check_loop rt strict node_name es
            (out @ [e'],
             (if ok then n_passed + 1 else n_passed),
             (if ok then n_failed else n_failed + 1),
             (if down then n_down + 1 else n_down),
             n_total + 1))"

definition run_check :: "runtime \<Rightarrow> GraphResult \<Rightarrow> bool \<Rightarrow> GraphResult" where
  "run_check rt graph strict =
     (case check_loop rt strict (node_names (nodes graph)) (edges graph) ([], 0, 0, 0, 0) of
        (out, n_passed, n_failed, n_down, n_total) \<Rightarrow>
          graph\<lparr>edges := out,
                meta := (meta graph)\<lparr>checker_summary := (checker_summary (meta graph))
                   \<lparr>passed := n_passed, failed := n_failed, edges_checked := n_total,
                    edges_failed := n_failed, edges_downgraded := n_down\<rparr>\<rparr>\<rparr>)"

section \<open>The graph normaliser (\<^verbatim>\<open>tools/merge.py\<close>)\<close>

record MergeStats =
  nodes_merged :: nat
  edges_removed :: nat
  stats_conflicts_flagged :: nat

text \<open>The table \<^verbatim>\<open>_ABBREV\<close>.\<close>

definition ABBREV :: "(pystr \<times> pystr) list" where
  "ABBREV =
     [(pys ''nn'', pys ''neural network''),
      (pys ''ml'', pys ''machine learning''),
      (pys ''dl'', pys ''deep learning''),
      (pys ''kl divergence'', pys ''kullback leibler divergence'')]"

definition normalize_name :: "runtime \<Rightarrow> pystr \<Rightarrow> pystr" where
  "normalize_name rt nm =
     (let s0 = lower rt (strip nm);
          s1 = sub_parens s0;
          s2 = sub_runs (\<lambda>c. \<not> keeps c) s1;
          s3 = strip (sub_runs isspace s2)
      in dict_get (map_of ABBREV) s3 s3)"

text \<open>The function \<^verbatim>\<open>_k\<close>: the key \<^verbatim>\<open>f"{domain.lower()}::{s}"\<close> of a node.\<close>

definition node_key :: "runtime \<Rightarrow> pystr \<Rightarrow> pystr \<Rightarrow> pystr" where
  "node_key rt nm dm = lower rt dm @ pys ''::'' @ normalize_name rt nm"

text \<open>
  The first loop of \<^verbatim>\<open>merge_synonyms\<close>, on the state \<^verbatim>\<open>(kept, id_map, nodes_merged)\<close>.
  The dict \<^verbatim>\<open>kept\<close> is iterated at the end, so it is an association list; \<^verbatim>\<open>id_map\<close> is
  only looked up.
\<close>

fun merge_nodes ::
  "runtime \<Rightarrow> Node list \<Rightarrow> (pystr \<times> Node) list \<times> (pystr \<rightharpoonup> pystr) \<times> nat \<Rightarrow>
   (pystr \<times> Node) list \<times> (pystr \<rightharpoonup> pystr) \<times> nat" where
  "merge_nodes rt [] st = st"
| "merge_nodes rt (n # ns) (kept, id_map, n_merged) =
     (let key = node_key rt (name n) (domain n)
      in case map_of kept key of
           None \<Rightarrow>
             merge_nodes rt ns (AList.update key n kept, id_map(node_id n \<mapsto> node_id n), n_merged)
         | Some m \<Rightarrow>
             merge_nodes rt ns (kept, id_map(node_id n \<mapsto> node_id m), n_merged + 1))"

text \<open>
  The second loop. An edge is first rewritten to the merged node ids (lines 60 to 65);
  its key is \<^verbatim>\<open>(s, t, e.relation)\<close>.
\<close>

type_synonym edge_key = "pystr \<times> pystr \<times> pystr"

definition remap_edge :: "runtime \<Rightarrow> (pystr \<rightharpoonup> pystr) \<Rightarrow> Edge \<Rightarrow> Edge" where
  "remap_edge rt id_map e =
     (let s = dict_get id_map (source e) (source e);
          t = dict_get id_map (target e) (target e)
      in ensure_id rt (e\<lparr>source := s, target := t\<rparr>))"

definition edge_key_of :: "Edge \<Rightarrow> edge_key" where
  "edge_key_of e = (source e, target e, relation e)"

text \<open>
  A duplicate: the edge \<open>w\<close> that is kept takes the snippet of the edge \<open>l\<close> that is removed,
  unless that snippet is empty or occurs in its own, and the flag (lines 75 to 77 with
  \<open>w = cur\<close>, lines 81 to 83 with \<open>w = e\<close>). The flags go through a \<^verbatim>\<open>set\<close>.
\<close>

definition absorb :: "runtime \<Rightarrow> Edge \<Rightarrow> Edge \<Rightarrow> Edge" where
  "absorb rt w l =
     (let w1 = (if snippet (evidence l) \<noteq> [] \<and>
                   \<not> str_in (snippet (evidence l)) (snippet (evidence w))
                then w\<lparr>evidence := (evidence w)
                       \<lparr>snippet := strip (snippet (evidence w)) @ [10] @ strip (snippet (evidence l))\<rparr>\<rparr>
                else w)
      in w1\<lparr>flags := set_iter rt (flags w1 @ [pys ''duplicate''])\<rparr>)"

fun dedup_edges ::
  "runtime \<Rightarrow> (pystr \<rightharpoonup> pystr) \<Rightarrow> Edge list \<Rightarrow> (edge_key \<times> Edge) list \<times> nat \<Rightarrow>
   (edge_key \<times> Edge) list \<times> nat" where
  "dedup_edges rt id_map [] st = st"
| "dedup_edges rt id_map (e0 # es) (out_edges, n_removed) =
     (let e = remap_edge rt id_map e0;
          k = edge_key_of e
      in case map_of out_edges k of
           None \<Rightarrow> dedup_edges rt id_map es (AList.update k e out_edges, n_removed)
         | Some cur \<Rightarrow>
             (if confidence e \<le> confidence cur
              then dedup_edges rt id_map es (AList.update k (absorb rt cur e) out_edges, n_removed + 1)
              else dedup_edges rt id_map es (AList.update k (absorb rt e cur) out_edges, n_removed + 1)))"

text \<open>
  The dict \<^verbatim>\<open>by_pair\<close>. A \<^verbatim>\<open>set\<close> of relations is the list of its elements in the order
  they were added.
\<close>

definition by_pair_add ::
  "edge_key \<Rightarrow> ((pystr \<times> pystr) \<times> pystr list) list \<Rightarrow> ((pystr \<times> pystr) \<times> pystr list) list" where
  "by_pair_add k by_pair =
     (case k of (s, t, rel) \<Rightarrow>
        (case map_of by_pair (s, t) of
           None \<Rightarrow> AList.update (s, t) [rel] by_pair
         | Some rels \<Rightarrow>
             AList.update (s, t) (if rel \<in> set rels then rels else rels @ [rel]) by_pair))"

definition by_pair_of :: "edge_key list \<Rightarrow> ((pystr \<times> pystr) \<times> pystr list) list" where
  "by_pair_of ks = fold by_pair_add ks []"

text \<open>
  The body of the inner loop (lines 96 to 101) on the edge \<open>e\<close>, and the two loops. A key
  that is not in \<^verbatim>\<open>out_edges\<close> raises \<^verbatim>\<open>KeyError\<close>: the result is \<open>None\<close>.
\<close>

definition mark_conflict :: "Edge \<Rightarrow> Edge" where
  "mark_conflict e =
     (let e1 = (if pys ''conflict'' \<notin> set (flags e)
                then e\<lparr>flags := flags e @ [pys ''conflict'']\<rparr> else e)
      in e1\<lparr>confidence := max 0 (min 1 (confidence e1 * 0.8))\<rparr>)"

fun flag_rels ::
  "pystr \<Rightarrow> pystr \<Rightarrow> pystr list \<Rightarrow> (edge_key \<times> Edge) list \<times> nat \<Rightarrow>
   ((edge_key \<times> Edge) list \<times> nat) option" where
  "flag_rels s t [] st = Some st"
| "flag_rels s t (rel # rels) (out_edges, n_flagged) =
     (case map_of out_edges (s, t, rel) of
        None \<Rightarrow> None
      | Some e \<Rightarrow>
          flag_rels s t rels
            (AList.update (s, t, rel) (mark_conflict e) out_edges,
             (if pys ''conflict'' \<notin> set (flags e) then n_flagged + 1 else n_flagged)))"

fun flag_pairs ::
  "runtime \<Rightarrow> ((pystr \<times> pystr) \<times> pystr list) list \<Rightarrow> (edge_key \<times> Edge) list \<times> nat \<Rightarrow>
   ((edge_key \<times> Edge) list \<times> nat) option" where
  "flag_pairs rt [] st = Some st"
| "flag_pairs rt (((s, t), rels) # ps) st =
     (if length rels \<le> 1 then flag_pairs rt ps st
      else (case flag_rels s t (set_iter rt rels) st of
              None \<Rightarrow> None
            | Some st' \<Rightarrow> flag_pairs rt ps st'))"

text \<open>The state of \<^verbatim>\<open>merge_synonyms\<close> after its first loop and after its second loop.\<close>

definition nodes_phase ::
  "runtime \<Rightarrow> Node list \<Rightarrow> (pystr \<times> Node) list \<times> (pystr \<rightharpoonup> pystr) \<times> nat" where
  "nodes_phase rt ns = merge_nodes rt ns ([], Map.empty, 0)"

definition id_map_of :: "runtime \<Rightarrow> Node list \<Rightarrow> pystr \<rightharpoonup> pystr" where
  "id_map_of rt ns = fst (snd (nodes_phase rt ns))"

definition edges_phase :: "runtime \<Rightarrow> Node list \<Rightarrow> Edge list \<Rightarrow> (edge_key \<times> Edge) list \<times> nat" where
  "edges_phase rt ns es = dedup_edges rt (id_map_of rt ns) es ([], 0)"

definition merge_synonyms ::
  "runtime \<Rightarrow> Node list \<Rightarrow> Edge list \<Rightarrow> (Node list \<times> Edge list \<times> MergeStats) option" where
  "merge_synonyms rt ns es =
     (case nodes_phase rt ns of
        (kept, id_map, n_merged) \<Rightarrow>
          (case edges_phase rt ns es of
             (out_edges, n_removed) \<Rightarrow>
               (case flag_pairs rt (by_pair_of (map fst out_edges)) (out_edges, 0) of
                  None \<Rightarrow> None
                | Some (out_edges', n_flagged) \<Rightarrow>
                    Some (map snd kept, map snd out_edges',
                          \<lparr>nodes_merged = n_merged, edges_removed = n_removed,
                           stats_conflicts_flagged = n_flagged\<rparr>))))"

text \<open>
  The words of the specification, to compare the second loop with: of the edges \<open>g # gs\<close>
  of one key, in their order, the first is kept unless a later one has a strictly higher
  confidence; and the snippet of the edge that loses is appended to the snippet of the one
  that is kept when it does not occur in it.
\<close>

definition first_highest :: "Edge \<Rightarrow> Edge list \<Rightarrow> Edge" where
  "first_highest g gs = foldl (\<lambda>w e. if confidence w < confidence e then e else w) g gs"

definition append_snippet :: "pystr \<Rightarrow> pystr \<Rightarrow> pystr" where
  "append_snippet kept_snip lost_snip =
     (if str_in lost_snip kept_snip then kept_snip
      else strip kept_snip @ [10] @ strip lost_snip)"

fun merged_snippet :: "real \<times> pystr \<Rightarrow> (real \<times> pystr) list \<Rightarrow> pystr" where
  "merged_snippet (c, s) [] = s"
| "merged_snippet (c, s) ((c', s') # rest) =
     (if c < c' then merged_snippet (c', append_snippet s' s) rest
      else merged_snippet (c, append_snippet s s') rest)"

text \<open>
  Two edges of the output are in conflict when they join the same nodes with different
  relations.
\<close>

definition in_conflict :: "Edge list \<Rightarrow> Edge \<Rightarrow> bool" where
  "in_conflict es e =
     list_ex (\<lambda>e'. source e' = source e \<and> target e' = target e \<and> relation e' \<noteq> relation e) es"

text \<open>
  The values of \<^verbatim>\<open>out_edges\<close> when the second loop ends: the edges that survive the
  deduplication, before the conflicts are marked.
\<close>

definition survivors :: "runtime \<Rightarrow> Node list \<Rightarrow> Edge list \<Rightarrow> Edge list" where
  "survivors rt ns es = map snd (fst (edges_phase rt ns es))"

text \<open>
  For the proofs: what \<^verbatim>\<open>by_pair\<close> holds once the keys \<open>ks\<close> have been added; whether
  another key of \<open>ks\<close> joins the same nodes with another relation; and what the second loop
  does to the entry of one key when it meets the edge \<open>e\<close>.
\<close>

definition pair_inv :: "edge_key list \<Rightarrow> ((pystr \<times> pystr) \<times> pystr list) list \<Rightarrow> bool" where
  "pair_inv ks bp \<longleftrightarrow>
     distinct (map fst bp) \<and>
     (\<forall>s t rels. map_of bp (s, t) = Some rels \<longrightarrow>
        distinct rels \<and> set rels = {rel. (s, t, rel) \<in> set ks}) \<and>
     (\<forall>s t rel. (s, t, rel) \<in> set ks \<longrightarrow> map_of bp (s, t) \<noteq> None)"

definition other_relation :: "edge_key list \<Rightarrow> edge_key \<Rightarrow> bool" where
  "other_relation ks k =
     list_ex (\<lambda>k'. fst k' = fst k \<and> fst (snd k') = fst (snd k) \<and> snd (snd k') \<noteq> snd (snd k)) ks"

definition dup_step :: "runtime \<Rightarrow> Edge \<Rightarrow> Edge \<Rightarrow> Edge" where
  "dup_step rt cur e =
     (if confidence e \<le> confidence cur then absorb rt cur e else absorb rt e cur)"

definition key_step :: "runtime \<Rightarrow> edge_key \<Rightarrow> Edge \<Rightarrow> Edge option \<Rightarrow> Edge option" where
  "key_step rt k e acc =
     (if edge_key_of e = k
      then (case acc of None \<Rightarrow> Some e | Some cur \<Rightarrow> Some (dup_step rt cur e))
      else acc)"

text \<open>
  For the proofs: \<open>s\<close> is the edge \<open>w\<close> but for its flags and the snippet of its evidence,
  which is all a merge of duplicates changes.
\<close>

definition same_but_merged :: "Edge \<Rightarrow> Edge \<Rightarrow> bool" where
  "same_but_merged s w \<longleftrightarrow>
     s\<lparr>flags := flags w, evidence := (evidence s)\<lparr>snippet := snippet (evidence w)\<rparr>\<rparr> = w"

section \<open>Schema validation and repair (\<^verbatim>\<open>tools/schema_validate.py\<close>)\<close>

subsection \<open>Python operations on untyped values\<close>

text \<open>
  A draft is the dict of a parsed JSON document. Its nested dicts and lists are taken to be
  separate objects, as a JSON parser builds them, so that the in-place updates of the source
  are updates of values.
\<close>

datatype py_error = TypeError | ValueError

text \<open>The truth value of \<^verbatim>\<open>if x\<close>, \<^verbatim>\<open>x or y\<close>, \<^verbatim>\<open>isinstance\<close>, \<^verbatim>\<open>str(x)\<close>.\<close>

definition truthy :: "pyval \<Rightarrow> bool" where
  "truthy v =
     (case v of PNone \<Rightarrow> False | PBool b \<Rightarrow> b | PNum x \<Rightarrow> x \<noteq> 0 | PStr s \<Rightarrow> s \<noteq> []
      | PList xs \<Rightarrow> xs \<noteq> [] | PDict d \<Rightarrow> d \<noteq> [])"

definition py_or :: "pyval \<Rightarrow> pyval \<Rightarrow> pyval" where
  "py_or a b = (if truthy a then a else b)"

definition is_dict :: "pyval \<Rightarrow> bool" where
  "is_dict v = (case v of PDict d \<Rightarrow> True | _ \<Rightarrow> False)"

definition is_list :: "pyval \<Rightarrow> bool" where
  "is_list v = (case v of PList xs \<Rightarrow> True | _ \<Rightarrow> False)"

definition py_str :: "runtime \<Rightarrow> pyval \<Rightarrow> pystr" where
  "py_str rt v = (case v of PStr s \<Rightarrow> s | _ \<Rightarrow> str_of rt v)"

text \<open>\<^verbatim>\<open>k in d\<close>, \<^verbatim>\<open>d.get(k)\<close>, \<^verbatim>\<open>d.setdefault(k, v)\<close> and \<^verbatim>\<open>d[k] = v\<close> for a string \<open>k\<close>.\<close>

definition has :: "pydict \<Rightarrow> pystr \<Rightarrow> bool" where
  "has d k = (map_of d (PStr k) \<noteq> None)"

definition dget :: "pydict \<Rightarrow> pystr \<Rightarrow> pyval" where
  "dget d k = (case map_of d (PStr k) of None \<Rightarrow> PNone | Some v \<Rightarrow> v)"

definition setitem :: "pydict \<Rightarrow> pystr \<Rightarrow> pyval \<Rightarrow> pydict" where
  "setitem d k v = AList.update (PStr k) v d"

definition setdefault :: "pydict \<Rightarrow> pystr \<Rightarrow> pyval \<Rightarrow> pydict" where
  "setdefault d k v = (if has d k then d else setitem d k v)"

text \<open>
  \<^verbatim>\<open>list(x)\<close>: the elements of a list, the characters of a string, the keys of a dict; a
  number, a boolean and \<^verbatim>\<open>None\<close> are not iterable.
\<close>

definition py_list :: "pyval \<Rightarrow> py_error + pyval list" where
  "py_list v =
     (case v of
        PList xs \<Rightarrow> Inr xs
      | PStr s \<Rightarrow> Inr (map (\<lambda>c. PStr [c]) s)
      | PDict d \<Rightarrow> Inr (map fst d)
      | _ \<Rightarrow> Inl TypeError)"

text \<open>
  \<^verbatim>\<open>dict(x)\<close>: a copy of a dict; of a list, the dict of its elements, each of which has to
  be a sequence of two elements with a hashable first one. Keys are compared with \<^verbatim>\<open>==\<close>,
  for which \<^verbatim>\<open>True\<close> is 1 and \<^verbatim>\<open>False\<close> is 0.
\<close>

definition hashable :: "pyval \<Rightarrow> bool" where
  "hashable v = (case v of PList xs \<Rightarrow> False | PDict d \<Rightarrow> False | _ \<Rightarrow> True)"

definition key_value :: "pyval \<Rightarrow> pyval" where
  "key_value v = (case v of PBool b \<Rightarrow> PNum (if b then 1 else 0) | _ \<Rightarrow> v)"

fun key_setitem :: "pyval \<Rightarrow> pyval \<Rightarrow> pydict \<Rightarrow> pydict" where
  "key_setitem k v [] = [(k, v)]"
| "key_setitem k v (p # ps) =
     (if key_value (fst p) = key_value k then (fst p, v) # ps else p # key_setitem k v ps)"

fun pair_of :: "pyval \<Rightarrow> py_error + (pyval \<times> pyval)" where
  "pair_of (PList [k, v]) = (if hashable k then Inr (k, v) else Inl TypeError)"
| "pair_of (PList xs) = Inl ValueError"
| "pair_of (PStr [a, b]) = Inr (PStr [a], PStr [b])"
| "pair_of (PStr s) = Inl ValueError"
| "pair_of (PDict [(k1, v1), (k2, v2)]) = Inr (k1, k2)"
| "pair_of (PDict d) = Inl ValueError"
| "pair_of v = Inl TypeError"

fun dict_of_pairs :: "pyval list \<Rightarrow> pydict \<Rightarrow> py_error + pydict" where
  "dict_of_pairs [] d = Inr d"
| "dict_of_pairs (x # xs) d =
     (case pair_of x of
        Inl err \<Rightarrow> Inl err
      | Inr (k, v) \<Rightarrow> dict_of_pairs xs (key_setitem k v d))"

definition py_dict :: "pyval \<Rightarrow> py_error + pydict" where
  "py_dict v =
     (case v of
        PDict d \<Rightarrow> Inr d
      | PList xs \<Rightarrow> dict_of_pairs xs []
      | PStr s \<Rightarrow> (if s = [] then Inr [] else Inl ValueError)
      | _ \<Rightarrow> Inl TypeError)"

subsection \<open>\<^verbatim>\<open>validate_graph\<close>\<close>

text \<open>
  \<^verbatim>\<open>GraphResult.model_validate\<close> on a draft: what Pydantic checks for the classes of
  \<^verbatim>\<open>models.py\<close>. A field with no default has to be there; a field with a default may be
  missing; \<^verbatim>\<open>str\<close> takes a string only; a nested model takes a dict; keys that are not
  fields are ignored. \<open>validate_graph\<close> is the first component of the result of the source;
  the messages of the second one are Pydantic's.
\<close>

definition required :: "pydict \<Rightarrow> pystr \<Rightarrow> (pyval \<Rightarrow> bool) \<Rightarrow> bool" where
  "required d k P = (case map_of d (PStr k) of None \<Rightarrow> False | Some v \<Rightarrow> P v)"

definition optional :: "pydict \<Rightarrow> pystr \<Rightarrow> (pyval \<Rightarrow> bool) \<Rightarrow> bool" where
  "optional d k P = (case map_of d (PStr k) of None \<Rightarrow> True | Some v \<Rightarrow> P v)"

definition v_str :: "pyval \<Rightarrow> bool" where
  "v_str v = (case v of PStr s \<Rightarrow> True | _ \<Rightarrow> False)"

definition v_opt_str :: "pyval \<Rightarrow> bool" where
  "v_opt_str v = (v = PNone \<or> v_str v)"

definition v_unit_float :: "runtime \<Rightarrow> pyval \<Rightarrow> bool" where
  "v_unit_float rt v = (case lax_float rt v of None \<Rightarrow> False | Some x \<Rightarrow> 0 \<le> x \<and> x \<le> 1)"

definition v_bool :: "runtime \<Rightarrow> pyval \<Rightarrow> bool" where
  "v_bool rt v = (lax_bool rt v \<noteq> None)"

definition v_int :: "runtime \<Rightarrow> pyval \<Rightarrow> bool" where
  "v_int rt v = (lax_int rt v \<noteq> None)"

definition v_list :: "(pyval \<Rightarrow> bool) \<Rightarrow> pyval \<Rightarrow> bool" where
  "v_list P v = (case v of PList xs \<Rightarrow> list_all P xs | _ \<Rightarrow> False)"

definition valid_Evidence :: "pyval \<Rightarrow> bool" where
  "valid_Evidence v =
     (case v of
        PDict d \<Rightarrow>
          required d (pys ''title'') v_str \<and> required d (pys ''snippet'') v_str \<and>
          optional d (pys ''url'') v_opt_str \<and> optional d (pys ''domain'') v_opt_str
      | _ \<Rightarrow> False)"

definition valid_Node :: "runtime \<Rightarrow> pyval \<Rightarrow> bool" where
  "valid_Node rt v =
     (case v of
        PDict d \<Rightarrow>
          required d (pys ''id'') v_str \<and> required d (pys ''name'') v_str \<and>
          required d (pys ''domain'') v_str \<and> optional d (pys ''definition'') v_opt_str \<and>
          optional d (pys ''confidence'') (v_unit_float rt)
      | _ \<Rightarrow> False)"

definition valid_Edge :: "runtime \<Rightarrow> pyval \<Rightarrow> bool" where
  "valid_Edge rt v =
     (case v of
        PDict d \<Rightarrow>
          optional d (pys ''id'') v_opt_str \<and>
          required d (pys ''source'') v_str \<and> required d (pys ''target'') v_str \<and>
          required d (pys ''relation'') (\<lambda>r. r \<in> PStr ` set allowed_relations) \<and>
          required d (pys ''explanation'') v_str \<and>
          required d (pys ''evidence'') valid_Evidence \<and>
          optional d (pys ''confidence'') (v_unit_float rt) \<and>
          optional d (pys ''checked'') (v_bool rt) \<and>
          optional d (pys ''check_reason'') v_opt_str \<and>
          optional d (pys ''flags'') (v_list v_str)
      | _ \<Rightarrow> False)"

definition valid_CheckerSummary :: "runtime \<Rightarrow> pyval \<Rightarrow> bool" where
  "valid_CheckerSummary rt v =
     (case v of
        PDict d \<Rightarrow>
          list_all (\<lambda>k. optional d k (v_int rt))
            [pys ''schema_fixed'', pys ''edges_checked'', pys ''edges_failed'',
             pys ''edges_downgraded'', pys ''dedup_nodes_merged'', pys ''dedup_edges_removed'',
             pys ''conflicts_flagged'', pys ''passed'', pys ''failed'']
      | _ \<Rightarrow> False)"

definition v_trace :: "pyval \<Rightarrow> bool" where
  "v_trace v = (case v of PNone \<Rightarrow> True | PDict d \<Rightarrow> list_all (\<lambda>p. v_str (fst p)) d | _ \<Rightarrow> False)"

definition valid_Meta :: "runtime \<Rightarrow> pyval \<Rightarrow> bool" where
  "valid_Meta rt v =
     (case v of
        PDict d \<Rightarrow>
          required d (pys ''generated_at'') v_str \<and> required d (pys ''version'') v_str \<and>
          required d (pys ''checker_summary'') (valid_CheckerSummary rt) \<and>
          optional d (pys ''agent_trace'') v_trace
      | _ \<Rightarrow> False)"

definition validate_graph :: "runtime \<Rightarrow> pydict \<Rightarrow> bool" where
  "validate_graph rt graph_dict =
     (required graph_dict (pys ''concept'') v_str \<and>
      required graph_dict (pys ''nodes'') (v_list (valid_Node rt)) \<and>
      required graph_dict (pys ''edges'') (v_list (valid_Edge rt)) \<and>
      required graph_dict (pys ''meta'') (valid_Meta rt))"

subsection \<open>\<^verbatim>\<open>light_fix\<close>\<close>

text \<open>The dict \<^verbatim>\<open>node_domain\<close> (lines 52 to 55).\<close>

definition index_nodes :: "runtime \<Rightarrow> pyval list \<Rightarrow> pystr \<rightharpoonup> pystr" where
  "index_nodes rt ns =
     fold (\<lambda>n m. case n of
                    PDict d \<Rightarrow>
                      (if truthy (dget d (pys ''id'')) \<and> truthy (dget d (pys ''domain''))
                       then m(py_str rt (dget d (pys ''id'')) \<mapsto> py_str rt (dget d (pys ''domain'')))
                       else m)
                  | _ \<Rightarrow> m) ns Map.empty"

text \<open>
  The body of the loop on the edges (lines 67 to 93) for an entry \<open>e\<close> that is a dict: the
  dict \<^verbatim>\<open>ee\<close> that is appended, and the number added to \<^verbatim>\<open>fixed\<close>.
\<close>

definition needs_id :: "pydict \<Rightarrow> bool" where
  "needs_id ee \<longleftrightarrow>
     \<not> truthy (dget ee (pys ''id'')) \<and> truthy (dget ee (pys ''source'')) \<and>
     truthy (dget ee (pys ''target'')) \<and> truthy (dget ee (pys ''relation''))"

definition fix_edge :: "runtime \<Rightarrow> (pystr \<rightharpoonup> pystr) \<Rightarrow> pydict \<Rightarrow> pydict \<times> nat" where
  "fix_edge rt node_domain e =
     (let bad_flags = (\<not> has e (pys ''flags'') \<or> \<not> is_list (dget e (pys ''flags'')));
          ee1 = (if bad_flags then setitem e (pys ''flags'') (PList []) else e);
          ee2 = setdefault ee1 (pys ''check_reason'') PNone;
          ev0 = (case dget ee2 (pys ''evidence'') of PDict d \<Rightarrow> d | _ \<Rightarrow> []);
          no_title = (\<not> has ev0 (pys ''title''));
          ev1 = (if no_title then setitem ev0 (pys ''title'') (PStr []) else ev0);
          no_snippet = (\<not> has ev1 (pys ''snippet''));
          ev2 = (if no_snippet then setitem ev1 (pys ''snippet'') (PStr []) else ev1);
          ev3 = (if \<not> has ev2 (pys ''url'') then setitem ev2 (pys ''url'') PNone else ev2);
          no_domain = (\<not> has ev3 (pys ''domain''));
          tid = py_str rt (py_or (dget ee2 (pys ''target'')) (PStr []));
          ev4 = (if no_domain
                 then setitem ev3 (pys ''domain'')
                        (case node_domain tid of None \<Rightarrow> PNone | Some dm \<Rightarrow> PStr dm)
                 else ev3);
          ee3 = setitem ee2 (pys ''evidence'') (PDict ev4);
          no_id = needs_id ee3;
          ee4 = (if no_id
                 then setitem ee3 (pys ''id'')
                        (PStr (sha12 rt (py_str rt (dget ee3 (pys ''source'')) @ pys ''|'' @
                                         py_str rt (dget ee3 (pys ''relation'')) @ pys ''|'' @
                                         py_str rt (dget ee3 (pys ''target'')))))
                 else ee3)
      in (ee4,
          (if bad_flags then 1 else 0) + (if no_title then 1 else 0) +
          (if no_snippet then 1 else 0) + (if no_domain then 1 else 0) +
          (if no_id then 1 else 0)))"

text \<open>The loop on the edges, on the state \<^verbatim>\<open>(fixed_edges, fixed)\<close>.\<close>

fun fix_edges ::
  "runtime \<Rightarrow> (pystr \<rightharpoonup> pystr) \<Rightarrow> pyval list \<Rightarrow> pyval list \<times> nat \<Rightarrow> pyval list \<times> nat" where
  "fix_edges rt node_domain [] st = st"
| "fix_edges rt node_domain (e # es) (fixed_edges, fixed) =
     (case e of
        PDict d \<Rightarrow>
          (case fix_edge rt node_domain d of
             (ee, n) \<Rightarrow> fix_edges rt node_domain es (fixed_edges @ [PDict ee], fixed + n))
      | _ \<Rightarrow> fix_edges rt node_domain es (fixed_edges, fixed))"

text \<open>
  The defaults of the draft (lines 39 to 43; the tests are on \<^verbatim>\<open>graph_dict\<close>, the copy
  \<^verbatim>\<open>g\<close> is updated) and the defaults of \<^verbatim>\<open>meta\<close> (lines 46 to 48; each test comes after
  the \<^verbatim>\<open>setdefault\<close> on the same dict). Both give the dict and the number added to
  \<^verbatim>\<open>fixed\<close>.
\<close>

definition top_defaults :: "pydict \<Rightarrow> pydict \<times> nat" where
  "top_defaults graph_dict =
     (let g1 = setdefault graph_dict (pys ''concept'') (PStr (pys ''Unknown''));
          f1 = (if \<not> has graph_dict (pys ''concept'') then 1 else 0);
          g2 = setdefault g1 (pys ''nodes'') (PList []);
          f2 = f1 + (if \<not> has graph_dict (pys ''nodes'') then 1 else 0);
          g3 = setdefault g2 (pys ''edges'') (PList []);
          f3 = f2 + (if \<not> has graph_dict (pys ''edges'') then 1 else 0);
          g4 = setdefault g3 (pys ''meta'') (PDict []);
          f4 = f3 + (if \<not> has graph_dict (pys ''meta'') then 1 else 0)
      in (g4, f4))"

definition meta_defaults :: "pydict \<Rightarrow> pydict \<times> nat" where
  "meta_defaults meta0 =
     (let meta1 = setdefault meta0 (pys ''generated_at'') (PStr []);
          f1 = (if \<not> has meta1 (pys ''generated_at'') then 1 else 0);
          meta2 = setdefault meta1 (pys ''version'') (PStr (pys ''v1''));
          f2 = f1 + (if \<not> has meta2 (pys ''version'') then 1 else 0);
          meta3 = setdefault meta2 (pys ''checker_summary'') (PDict []);
          f3 = f2 + (if \<not> has meta3 (pys ''checker_summary'') then 1 else 0)
      in (meta3, f3))"

text \<open>\<^verbatim>\<open>light_fix\<close>. The argument \<^verbatim>\<open>errors\<close> is not used.\<close>

definition light_fix :: "runtime \<Rightarrow> pydict \<Rightarrow> pystr list \<Rightarrow> py_error + (pydict \<times> nat)" where
  "light_fix rt graph_dict errors =
     (case top_defaults graph_dict of
        (g, fixed0) \<Rightarrow>
          (case py_dict (py_or (dget g (pys ''meta'')) (PDict [])) of
             Inl err \<Rightarrow> Inl err
           | Inr meta0 \<Rightarrow>
               (case meta_defaults meta0 of
                  (meta3, fixed1) \<Rightarrow>
                    (case py_list (py_or (dget (setitem g (pys ''meta'') (PDict meta3)) (pys ''nodes''))
                                         (PList [])) of
                       Inl err \<Rightarrow> Inl err
                     | Inr ns \<Rightarrow>
                         (case py_list (py_or (dget (setitem g (pys ''meta'') (PDict meta3)) (pys ''edges''))
                                              (PList [])) of
                            Inl err \<Rightarrow> Inl err
                          | Inr es \<Rightarrow>
                              (case fix_edges rt (index_nodes rt ns) es ([], fixed0 + fixed1) of
                                 (fixed_edges, fixed) \<Rightarrow>
                                   Inr (setitem (setitem g (pys ''meta'') (PDict meta3))
                                          (pys ''edges'') (PList fixed_edges), fixed)))))))"

text \<open>
  For the claims: an edge of a draft that spells out the fields that \<^verbatim>\<open>light_fix\<close> fills in,
  and a draft whose edges all do.
\<close>

definition spelled_out :: "pyval \<Rightarrow> bool" where
  "spelled_out e =
     (case e of
        PDict d \<Rightarrow>
          has d (pys ''flags'') \<and> has d (pys ''check_reason'') \<and>
          (case dget d (pys ''evidence'') of
             PDict ev \<Rightarrow> has ev (pys ''url'') \<and> has ev (pys ''domain'')
           | _ \<Rightarrow> False) \<and>
          \<not> needs_id d
      | _ \<Rightarrow> False)"

definition all_spelled_out :: "pydict \<Rightarrow> bool" where
  "all_spelled_out g = (case dget g (pys ''edges'') of PList es \<Rightarrow> list_all spelled_out es | _ \<Rightarrow> False)"

text \<open>
  For the proofs: an edge that \<^verbatim>\<open>light_fix\<close> leaves as it is, and a draft that it leaves as
  it is.
\<close>

definition complete_edge :: "pyval \<Rightarrow> bool" where
  "complete_edge e =
     (case e of
        PDict d \<Rightarrow>
          has d (pys ''flags'') \<and> is_list (dget d (pys ''flags'')) \<and>
          has d (pys ''check_reason'') \<and>
          (case dget d (pys ''evidence'') of
             PDict ev \<Rightarrow> has ev (pys ''title'') \<and> has ev (pys ''snippet'') \<and>
                         has ev (pys ''url'') \<and> has ev (pys ''domain'')
           | _ \<Rightarrow> False) \<and>
          \<not> needs_id d
      | _ \<Rightarrow> False)"

definition complete_draft :: "pydict \<Rightarrow> bool" where
  "complete_draft g \<longleftrightarrow>
     has g (pys ''concept'') \<and> has g (pys ''nodes'') \<and>
     (case dget g (pys ''meta'') of
        PDict m \<Rightarrow> has m (pys ''generated_at'') \<and> has m (pys ''version'') \<and>
                   has m (pys ''checker_summary'')
      | _ \<Rightarrow> False) \<and>
     (case py_list (py_or (dget g (pys ''nodes'')) (PList [])) of Inl err \<Rightarrow> False | Inr ns \<Rightarrow> True) \<and>
     (case dget g (pys ''edges'') of PList es \<Rightarrow> list_all complete_edge es | _ \<Rightarrow> False)"

section \<open>Concrete graphs\<close>

definition mk_edge :: "pystr \<Rightarrow> pystr \<Rightarrow> pystr \<Rightarrow> pystr \<Rightarrow> pystr \<Rightarrow> real \<Rightarrow> Edge" where
  "mk_edge s t ttl snip ex c =
     \<lparr> edge_id = None, source = s, target = t, relation = pys ''is_a'', explanation = ex,
       evidence = \<lparr> title = ttl, snippet = snip, url = None, ev_domain = None \<rparr>,
       confidence = c, checked = True, check_reason = None, flags = [] \<rparr>"

definition mk_graph :: "Node list \<Rightarrow> Edge list \<Rightarrow> GraphResult" where
  "mk_graph ns es =
     \<lparr> concept = pys ''entropy'', nodes = ns, edges = es,
       meta = \<lparr> generated_at = [], version = pys ''v1'',
                checker_summary = \<lparr> schema_fixed = 0, edges_checked = 0, edges_failed = 0,
                  edges_downgraded = 0, dedup_nodes_merged = 0, dedup_edges_removed = 0,
                  conflicts_flagged = 0, passed = 0, failed = 0 \<rparr>,
                agent_trace = None \<rparr> \<rparr>"

definition two_nodes :: "Node list" where
  "two_nodes =
     [\<lparr> node_id = pys ''a'', name = pys ''Alpha'', domain = pys ''Core'', definition_of = None, node_confidence = 0.9 \<rparr>,
      \<lparr> node_id = pys ''b'', name = pys ''Entropy'', domain = pys ''Physics'', definition_of = None, node_confidence = 0.8 \<rparr>]"

definition shared_tokens :: "pystr \<Rightarrow> pystr \<Rightarrow> pystr list" where
  "shared_tokens sn ex = remdups (filter (\<lambda>t. str_in t ex) (long_tokens sn))"

definition graph_c1 :: GraphResult where
  "graph_c1 = mk_graph two_nodes
     [mk_edge (pys ''a'') (pys ''b'') (pys ''Entropy'') [] (pys ''Alpha relates to entropy.'') 0.8]"

definition graph_c2 :: GraphResult where
  "graph_c2 = mk_graph two_nodes
     [mk_edge (pys ''a'') (pys ''b'') (pys ''Seed'') (pys ''Hello world'') (pys ''Alpha relates to entropy.'') 0.2]"

definition snippet_c9 :: pystr where
  "snippet_c9 = pys ''Entropy measures uncertainty (information content).''"

definition explanation_c9 :: pystr where
  "explanation_c9 = pys ''Entropy measures the uncertainty of a source.''"

definition graph_c9 :: "pystr \<Rightarrow> real \<Rightarrow> GraphResult" where
  "graph_c9 ttl c = mk_graph two_nodes
     [mk_edge (pys ''a'') (pys ''b'') ttl snippet_c9 explanation_c9 c]"

definition graph_c10 :: "pystr \<Rightarrow> GraphResult" where
  "graph_c10 ex = mk_graph two_nodes
     [mk_edge (pys ''a'') (pys ''b'') (pys ''Seed'') (pys ''?! ...'') ex 0.8]"


text \<open>Edges for the normaliser, between the nodes \<open>a\<close> and \<open>b\<close> of \<open>two_nodes\<close>.\<close>

definition edge_ab :: "pystr \<Rightarrow> pystr \<Rightarrow> real \<Rightarrow> pystr list \<Rightarrow> Edge" where
  "edge_ab rel snip c fl =
     (mk_edge (pys ''a'') (pys ''b'') (pys ''Seed'') snip (pys ''Alpha relates to entropy.'') c)
       \<lparr>relation := rel, flags := fl\<rparr>"

definition edges_c3 :: "Edge list" where
  "edges_c3 =
     [edge_ab (pys ''is_a'') (pys ''first snippet'') 0.5 [],
      edge_ab (pys ''is_a'') (pys ''second snippet'') 0.75 []]"

definition edges_c4 :: "pystr list \<Rightarrow> Edge list" where
  "edges_c4 fl =
     [edge_ab (pys ''is_a'') (pys ''first snippet'') 0.5 fl,
      edge_ab (pys ''explains'') (pys ''second snippet'') 0.75 []]"

definition edge_c5 :: Edge where
  "edge_c5 = mk_edge (pys ''a'') (pys ''c'') (pys ''Seed'') (pys ''a snippet'')
     (pys ''Alpha relates to gamma.'') 0.5"


text \<open>
  Drafts for the repair: an edge with its required fields only, the same edge as
  \<^verbatim>\<open>light_fix\<close> completes it (with the digest of \<open>rt0\<close>), and drafts with given edges.
\<close>

definition edge_min :: pydict where
  "edge_min =
     [(PStr (pys ''source''), PStr (pys ''a'')),
      (PStr (pys ''target''), PStr (pys ''b'')),
      (PStr (pys ''relation''), PStr (pys ''is_a'')),
      (PStr (pys ''explanation''), PStr (pys ''Alpha is a kind of beta.'')),
      (PStr (pys ''evidence''),
         PDict [(PStr (pys ''title''), PStr (pys ''Seed'')),
                (PStr (pys ''snippet''), PStr (pys ''Alpha and beta.''))])]"

definition edge_fixed :: pydict where
  "edge_fixed =
     [(PStr (pys ''source''), PStr (pys ''a'')),
      (PStr (pys ''target''), PStr (pys ''b'')),
      (PStr (pys ''relation''), PStr (pys ''is_a'')),
      (PStr (pys ''explanation''), PStr (pys ''Alpha is a kind of beta.'')),
      (PStr (pys ''evidence''),
         PDict [(PStr (pys ''title''), PStr (pys ''Seed'')),
                (PStr (pys ''snippet''), PStr (pys ''Alpha and beta.'')),
                (PStr (pys ''url''), PNone),
                (PStr (pys ''domain''), PNone)]),
      (PStr (pys ''flags''), PList []),
      (PStr (pys ''check_reason''), PNone),
      (PStr (pys ''id''), PStr (replicate 12 48))]"

definition draft_of :: "pyval list \<Rightarrow> pydict" where
  "draft_of es =
     [(PStr (pys ''concept''), PStr (pys ''entropy'')),
      (PStr (pys ''nodes''), PList []),
      (PStr (pys ''edges''), PList es),
      (PStr (pys ''meta''),
         PDict [(PStr (pys ''generated_at''), PStr []),
                (PStr (pys ''version''), PStr (pys ''v1'')),
                (PStr (pys ''checker_summary''), PDict [])])]"

definition draft_c6 :: pydict where
  "draft_c6 = draft_of [PDict edge_min]"

definition fixed_c6 :: pydict where
  "fixed_c6 = draft_of [PDict edge_fixed]"

definition draft_c8 :: pydict where
  "draft_c8 = draft_of [PDict edge_min, PStr (pys ''a is a b'')]"

section \<open>Properties of the evidence checker\<close>

lemmas eval_defs = mk_edge_def mk_graph_def two_nodes_def run_check_def node_names_def
  check_edge_def evidence_check_def ensure_id_def dict_get_def allowed_relations_def norm_def
  rt0_def ascii_lower_def pys_def strip_def isspace_def keeps_def mentions_def clamp01_def
  overlap_def long_tokens_def Let_def
  graph_c1_def graph_c2_def graph_c9_def graph_c10_def snippet_c9_def explanation_c9_def
  shared_tokens_def

lemma runtime_ok_rt0: "runtime_ok rt0"
  by (simp add: runtime_ok_def rt0_def)

text \<open>The loop of \<^verbatim>\<open>run_check\<close> treats the edges one by one, in order.\<close>

lemma check_loop_fst:
  "fst (check_loop rt strict nn es acc) = fst acc @ map (\<lambda>e. fst (check_edge rt strict nn e)) es"
proof (induction es arbitrary: acc)
  case Nil
  show ?case by simp
next
  case (Cons e es)
  obtain out p f d t where acc: "acc = (out, p, f, d, t)" by (cases acc)
  obtain e' ok down where ce: "check_edge rt strict nn e = (e', ok, down)"
    by (cases "check_edge rt strict nn e")
  show ?case by (simp add: acc ce Cons.IH)
qed

lemma run_check_edges:
  "edges (run_check rt g strict) =
     map (\<lambda>e. fst (check_edge rt strict (node_names (nodes g)) e)) (edges g)"
proof -
  obtain out p f d t where r:
    "check_loop rt strict (node_names (nodes g)) (edges g) ([], 0, 0, 0, 0) = (out, p, f, d, t)"
    by (cases "check_loop rt strict (node_names (nodes g)) (edges g) ([], 0, 0, 0, 0)")
  have "out = map (\<lambda>e. fst (check_edge rt strict (node_names (nodes g)) e)) (edges g)"
    using check_loop_fst [of rt strict "node_names (nodes g)" "edges g" "([], 0, 0, 0, 0)"]
    by (simp add: r)
  then show ?thesis by (simp add: run_check_def r)
qed

lemma ensure_id_fields [simp]:
  "evidence (ensure_id rt e) = evidence e" "explanation (ensure_id rt e) = explanation e"
  "confidence (ensure_id rt e) = confidence e" "source (ensure_id rt e) = source e"
  "target (ensure_id rt e) = target e"
  by (simp_all add: ensure_id_def)


text \<open>\<^verbatim>\<open>evidence_check\<close> reads the evidence and the explanation of the edge only.\<close>

lemma evidence_check_cong:
  "evidence e1 = evidence e2 \<Longrightarrow> explanation e1 = explanation e2 \<Longrightarrow>
   evidence_check rt e1 sn tn = evidence_check rt e2 sn tn"
  by (simp add: evidence_check_def Let_def)

lemma check_edge_result:
  "fst (check_edge rt strict nn e) = e' \<Longrightarrow>
   evidence_check rt e (dict_get nn (source e) (source e)) (dict_get nn (target e) (target e)) = (ok, sc, reason) \<Longrightarrow>
   checked e' = ok \<and> check_reason e' = Some reason \<and>
   confidence e' = (if ok then clamp01 ((confidence e + sc) / 2) else clamp01 (confidence e * 0.45))"
proof -
  assume a: "fst (check_edge rt strict nn e) = e'"
    and b: "evidence_check rt e (dict_get nn (source e) (source e)) (dict_get nn (target e) (target e)) = (ok, sc, reason)"
  define e2 where "e2 = (if relation (ensure_id rt e) \<notin> set allowed_relations
             then (ensure_id rt e)\<lparr>relation := pys ''related_to'', flags := flags (ensure_id rt e) @ [pys ''downgraded'']\<rparr>
             else ensure_id rt e)"
  have ev: "evidence e2 = evidence e" "explanation e2 = explanation e" "confidence e2 = confidence e"
    by (simp_all add: e2_def)
  have c: "evidence_check rt e2 (dict_get nn (source e) (source e)) (dict_get nn (target e) (target e)) = (ok, sc, reason)"
    using b evidence_check_cong [OF ev(1,2)] by simp
  have "e' = fst (if ok then
                (e2\<lparr>checked := True,
                    confidence := clamp01 ((confidence e2 + sc) / 2),
                    check_reason := Some reason\<rparr>, True, relation (ensure_id rt e) \<notin> set allowed_relations)
              else
                (let e3 = e2\<lparr>checked := False,
                              confidence := clamp01 (confidence e2 * 0.45),
                              check_reason := Some reason\<rparr>
                 in (if strict
                     then e3\<lparr>explanation :=
                            (if explanation e3 \<noteq> [] then explanation e3
                             else pys ''No supported evidence found; marked as unchecked.'')\<rparr>
                     else e3, False, relation (ensure_id rt e) \<notin> set allowed_relations)))"
    using a c unfolding check_edge_def Let_def e2_def [symmetric] by simp
  then show ?thesis
    by (simp add: ev Let_def)
qed


lemma run_check_nth:
  assumes "i < length (edges g)"
  shows "edges (run_check rt g strict) ! i = fst (check_edge rt strict (node_names (nodes g)) (edges g ! i))"
  using assms by (simp add: run_check_edges)

lemma hard_rule_fails:
  assumes "title (evidence e) = [] \<or> snippet (evidence e) = [] \<or> strip (explanation e) = []"
  shows "\<exists>reason. evidence_check rt e sn tn = (False, 0, reason)"
  using assms by (auto simp: evidence_check_def)

lemma set_after_paren: "after_paren cs = Some r \<Longrightarrow> set r \<subseteq> set cs"
  by (induction cs) (auto split: if_splits)

lemma set_sub_parens: "set (sub_parens s) \<subseteq> set s"
proof (induction s rule: sub_parens.induct)
  case 1
  show ?case by simp
next
  case (2 c cs)
  show ?case
  proof (cases "c = 40")
    case False
    with 2 show ?thesis by auto
  next
    case True
    show ?thesis
    proof (cases "after_paren cs")
      case None
      with True 2 show ?thesis by auto
    next
      case (Some r)
      with True 2 have "set (sub_parens r) \<subseteq> set r" by simp
      with set_after_paren [OF Some] True Some show ?thesis by auto
    qed
  qed
qed

lemma sub_runs_all:
  assumes "\<forall>c\<in>set s. P c"
  shows "sub_runs P s = (if s = [] then [] else [32])"
proof (cases s)
  case Nil
  then show ?thesis by simp
next
  case (Cons c cs)
  then have c: "P c" and d: "dropWhile P cs = []"
    using assms by (auto simp: dropWhile_eq_Nil_conv)
  have "sub_runs P (c # cs) = 32 # sub_runs P (dropWhile P cs)"
    using c by simp
  also have "\<dots> = [32]"
    unfolding d by simp
  finally show ?thesis by (simp add: Cons)
qed

lemma mentions_nonempty: "mentions sn nm \<Longrightarrow> sn \<noteq> []"
proof
  assume m: "mentions sn nm" and e: "sn = []"
  let ?parts = "filter (\<lambda>p. 4 \<le> length p) (split_sp nm)"
  from m have nm: "nm \<noteq> []" by (auto simp: mentions_def)
  show False
  proof (cases "?parts = []")
    case True
    with m nm e show False by (simp add: mentions_def)
  next
    case False
    with m nm e have "\<exists>p\<in>set (take 4 ?parts). p = []"
      by (simp add: mentions_def list_ex_iff)
    then obtain p where "p \<in> set (take 4 ?parts)" and "p = []" by blast
    then have "p \<in> set ?parts" and "p = []" using in_set_takeD by fast+
    then show False by simp
  qed
qed

lemma norm_no_kept_char:
  assumes "\<forall>c\<in>set (lower rt s). \<not> keeps c"
  shows "norm rt s = []"
proof -
  let ?t = "sub_parens (lower rt s)"
  have "\<forall>c\<in>set ?t. \<not> keeps c" using assms set_sub_parens by blast
  then have "sub_runs (\<lambda>c. \<not> keeps c) ?t = (if ?t = [] then [] else [32])"
    by (rule sub_runs_all)
  then show ?thesis
    by (simp add: norm_def Let_def strip_def isspace_def)
qed

text \<open>
  When the set of long tokens has at most 12 elements, all of them are looked at, in
  whatever order the set is iterated.
\<close>

lemma overlap_all:
  assumes "runtime_ok rt" and "length (remdups (long_tokens sn)) \<le> 12"
  shows "overlap rt sn ex = length (shared_tokens sn ex)"
proof -
  let ?L = "set_iter rt (long_tokens sn)"
  have d: "distinct ?L" and s: "set ?L = set (long_tokens sn)"
    using assms(1) by (simp_all add: runtime_ok_def)
  have "length ?L = card (set (long_tokens sn))"
    using d s distinct_card by fastforce
  then have "length ?L \<le> 12"
    using assms(2) by (simp add: length_remdups_card_conv)
  then have t: "take 12 ?L = ?L" by simp
  have df: "distinct (filter (\<lambda>t. str_in t ex) ?L)"
    using d by simp
  have eqs: "set (filter (\<lambda>t. str_in t ex) ?L) = set (filter (\<lambda>t. str_in t ex) (long_tokens sn))"
    using s by auto
  have "overlap rt sn ex = length (filter (\<lambda>t. str_in t ex) ?L)"
    by (simp add: overlap_def t)
  also have "\<dots> = card (set (filter (\<lambda>t. str_in t ex) ?L))"
    by (rule distinct_card [OF df, symmetric])
  also have "\<dots> = card (set (filter (\<lambda>t. str_in t ex) (long_tokens sn)))"
    by (simp only: eqs)
  also have "\<dots> = length (remdups (filter (\<lambda>t. str_in t ex) (long_tokens sn)))"
    by (rule length_remdups_card_conv [symmetric])
  finally show ?thesis
    by (simp add: shared_tokens_def)
qed

lemma score_bounds:
  "0.55 \<le> clamp01 (0.55 + 0.07 * real n) \<and> clamp01 (0.55 + 0.07 * real n) \<le> 1"
  by (simp add: clamp01_def)

lemma score_three: "3 \<le> n \<Longrightarrow> 0.76 \<le> clamp01 (0.55 + 0.07 * real n)"
proof -
  assume "3 \<le> n"
  then have "3 \<le> real n" by simp
  then have "0.76 \<le> 0.55 + 0.07 * real n" by simp
  then show ?thesis by (simp add: clamp01_def)
qed

lemma mean_between:
  assumes "0.55 \<le> s" and "s \<le> 1"
  shows "min c s \<le> clamp01 ((c + s) / 2) \<and> clamp01 ((c + s) / 2) \<le> max c s \<and>
         clamp01 ((c + s) / 2) \<le> 1"
  using assms by (auto simp: clamp01_def min_def max_def)

subsection \<open>Missing title, snippet or explanation\<close>

text \<open>
  Claim C1, as stated, fails: the edge of \<open>graph_c1\<close> has an empty snippet and the
  confidence 0.8, and \<^verbatim>\<open>run_check\<close> leaves it with the confidence 0.36, not 0.
\<close>

theorem missing_evidence_confidence_not_zero:
  "snippet (evidence (edges graph_c1 ! 0)) = [] \<and>
   confidence (edges graph_c1 ! 0) = 0.8 \<and>
   confidence (edges (run_check rt0 graph_c1 True) ! 0) = 0.36 \<and>
   confidence (edges (run_check rt0 graph_c1 True) ! 0) \<noteq> 0"
  by (simp add: eval_defs)

text \<open>
  Claim C1, amended: for every edge of the graph whose evidence title, evidence snippet
  or explanation is empty, \<^verbatim>\<open>evidence_check\<close> fails at once, whatever the names of the
  endpoints are, with the score 0; \<^verbatim>\<open>run_check\<close> sets \<open>checked\<close> to false and the
  confidence to \<open>clamp01 (old * 0.45)\<close> (the score is not used on the failure path), which
  is 0 only when the old confidence is at most 0.
\<close>

theorem missing_evidence_fails_scaled:
  assumes "i < length (edges g)"
    and "title (evidence (edges g ! i)) = [] \<or> snippet (evidence (edges g ! i)) = [] \<or>
         explanation (edges g ! i) = []"
  shows "fst (evidence_check rt (edges g ! i) sn tn) = False \<and>
         fst (snd (evidence_check rt (edges g ! i) sn tn)) = 0 \<and>
         checked (edges (run_check rt g strict) ! i) = False \<and>
         confidence (edges (run_check rt g strict) ! i) = clamp01 (confidence (edges g ! i) * 0.45)"
proof -
  let ?e = "edges g ! i"
  let ?nn = "node_names (nodes g)"
  have hard: "title (evidence ?e) = [] \<or> snippet (evidence ?e) = [] \<or> strip (explanation ?e) = []"
    using assms(2) by (auto simp: strip_def)
  obtain r1 where 1: "evidence_check rt ?e sn tn = (False, 0, r1)"
    using hard_rule_fails [OF hard] by blast
  obtain r2 where 2: "evidence_check rt ?e (dict_get ?nn (source ?e) (source ?e))
       (dict_get ?nn (target ?e) (target ?e)) = (False, 0, r2)"
    using hard_rule_fails [OF hard] by blast
  show ?thesis
    using check_edge_result [OF refl 2, of strict] 1
    by (simp add: run_check_nth [OF assms(1)])
qed

theorem missing_evidence_fails_scaled_witness:
  "0 < length (edges graph_c1) \<and>
   snippet (evidence (edges graph_c1 ! 0)) = [] \<and>
   fst (snd (evidence_check rt0 (edges graph_c1 ! 0) [] [])) = 0 \<and>
   checked (edges (run_check rt0 graph_c1 True) ! 0) = False \<and>
   confidence (edges (run_check rt0 graph_c1 True) ! 0) =
     clamp01 (confidence (edges graph_c1 ! 0) * 0.45)"
proof -
  have h1: "0 < length (edges graph_c1)"
    by (simp add: graph_c1_def mk_graph_def)
  have h2: "snippet (evidence (edges graph_c1 ! 0)) = []"
    by (simp add: graph_c1_def mk_graph_def mk_edge_def)
  from h2 have h3: "title (evidence (edges graph_c1 ! 0)) = [] \<or>
      snippet (evidence (edges graph_c1 ! 0)) = [] \<or> explanation (edges graph_c1 ! 0) = []"
    by blast
  show ?thesis
    using missing_evidence_fails_scaled [OF h1 h3, of rt0 "[]" "[]" True] h1 h2 by blast
qed

subsection \<open>No endpoint mentioned\<close>

text \<open>
  Claim C2, as stated, fails: the edge of \<open>graph_c2\<close> passes the hard rule, its snippet
  mentions neither endpoint, its confidence is 0.2, and \<^verbatim>\<open>run_check\<close> leaves it with
  the confidence 0.09, below 0.15.
\<close>

theorem no_mention_confidence_below_floor:
  "(let e = edges graph_c2 ! 0; nn = node_names (nodes graph_c2);
        sn = norm rt0 (snippet (evidence e))
    in title (evidence e) \<noteq> [] \<and> snippet (evidence e) \<noteq> [] \<and> strip (explanation e) \<noteq> [] \<and>
       \<not> mentions sn (norm rt0 (dict_get nn (source e) (source e))) \<and>
       \<not> mentions sn (norm rt0 (dict_get nn (target e) (target e)))) \<and>
   confidence (edges graph_c2 ! 0) = 0.2 \<and>
   confidence (edges (run_check rt0 graph_c2 True) ! 0) = 0.09 \<and>
   \<not> 0.15 \<le> confidence (edges (run_check rt0 graph_c2 True) ! 0)"
  by (simp add: eval_defs)

text \<open>
  Claim C2, amended: for every edge that passes the hard rule (title and snippet not empty,
  explanation not blank) and whose normalised snippet mentions neither the normalised name
  of its source nor that of its target, \<^verbatim>\<open>evidence_check\<close> fails, with the score 0.15
  (0 when the normalised snippet is empty); \<^verbatim>\<open>run_check\<close> sets \<open>checked\<close> to false and the
  confidence to \<open>clamp01 (old * 0.45)\<close>: the score 0.15 is not a floor of the confidence.
\<close>

theorem no_mention_fails_scaled:
  assumes "i < length (edges g)"
    and "e = edges g ! i" and "nn = node_names (nodes g)"
    and "title (evidence e) \<noteq> []" and "snippet (evidence e) \<noteq> []"
    and "strip (explanation e) \<noteq> []"
    and "sn = norm rt (snippet (evidence e))"
    and "\<not> mentions sn (norm rt (dict_get nn (source e) (source e)))"
    and "\<not> mentions sn (norm rt (dict_get nn (target e) (target e)))"
  shows "fst (evidence_check rt e (dict_get nn (source e) (source e))
                (dict_get nn (target e) (target e))) = False \<and>
         fst (snd (evidence_check rt e (dict_get nn (source e) (source e))
                (dict_get nn (target e) (target e)))) = (if sn = [] then 0 else 0.15) \<and>
         checked (edges (run_check rt g strict) ! i) = False \<and>
         confidence (edges (run_check rt g strict) ! i) = clamp01 (confidence e * 0.45)"
proof -
  have "\<exists>r. evidence_check rt e (dict_get nn (source e) (source e)) (dict_get nn (target e) (target e))
      = (False, if sn = [] then 0 else 0.15, r)"
    using assms(4-9) by (cases "sn = []") (simp_all add: evidence_check_def Let_def)
  then obtain r where 1:
    "evidence_check rt e (dict_get nn (source e) (source e)) (dict_get nn (target e) (target e))
      = (False, if sn = [] then 0 else 0.15, r)" by blast
  show ?thesis
    using check_edge_result [OF refl 1, of strict] 1 assms(2,3)
    by (simp add: run_check_nth [OF assms(1)])
qed

theorem no_mention_fails_scaled_witness:
  "0 < length (edges graph_c2) \<and>
   strip (explanation (edges graph_c2 ! 0)) \<noteq> [] \<and>
   \<not> mentions (norm rt0 (snippet (evidence (edges graph_c2 ! 0))))
       (norm rt0 (dict_get (node_names (nodes graph_c2)) (target (edges graph_c2 ! 0))
          (target (edges graph_c2 ! 0)))) \<and>
   checked (edges (run_check rt0 graph_c2 True) ! 0) = False \<and>
   confidence (edges (run_check rt0 graph_c2 True) ! 0) =
     clamp01 (confidence (edges graph_c2 ! 0) * 0.45)"
proof -
  let ?e = "edges graph_c2 ! 0"
  let ?nn = "node_names (nodes graph_c2)"
  have h1: "0 < length (edges graph_c2)" by (simp add: eval_defs)
  have h4: "title (evidence ?e) \<noteq> []" by (simp add: eval_defs)
  have h5: "snippet (evidence ?e) \<noteq> []" by (simp add: eval_defs)
  have h6: "strip (explanation ?e) \<noteq> []" by (simp add: eval_defs)
  have h8: "\<not> mentions (norm rt0 (snippet (evidence ?e)))
       (norm rt0 (dict_get ?nn (source ?e) (source ?e)))" by (simp add: eval_defs)
  have h9: "\<not> mentions (norm rt0 (snippet (evidence ?e)))
       (norm rt0 (dict_get ?nn (target ?e) (target ?e)))" by (simp add: eval_defs)
  show ?thesis
    using no_mention_fails_scaled [OF h1 refl refl h4 h5 h6 refl h8 h9, of True] h1 h6 h9
    by blast
qed

subsection \<open>A supported edge\<close>

text \<open>
  Claim C9, as stated, fails twice. The snippet of \<open>graph_c9\<close> mentions the target name and
  shares three long tokens with the explanation; with an empty title the edge is not checked,
  and with a title and the confidence 0.9 the new confidence is 0.83, below the original one.
\<close>

theorem supported_edge_confidence_can_drop:
  "(let e = edges (graph_c9 [] 0.5) ! 0; nn = node_names (nodes (graph_c9 [] 0.5));
        sn = norm rt0 (snippet (evidence e))
    in mentions sn (norm rt0 (dict_get nn (target e) (target e))) \<and>
       3 \<le> length (shared_tokens sn (norm rt0 (explanation e)))) \<and>
   checked (edges (run_check rt0 (graph_c9 [] 0.5) True) ! 0) = False \<and>
   (let e = edges (graph_c9 (pys ''Entropy'') 0.9) ! 0;
        nn = node_names (nodes (graph_c9 (pys ''Entropy'') 0.9));
        sn = norm rt0 (snippet (evidence e))
    in mentions sn (norm rt0 (dict_get nn (target e) (target e))) \<and>
       3 \<le> length (shared_tokens sn (norm rt0 (explanation e)))) \<and>
   confidence (edges (graph_c9 (pys ''Entropy'') 0.9) ! 0) = 0.9 \<and>
   confidence (edges (run_check rt0 (graph_c9 (pys ''Entropy'') 0.9) True) ! 0) = 0.83"
  by (simp add: eval_defs)

text \<open>
  Claim C9, amended: for every edge that passes the hard rule, whose normalised snippet
  mentions the normalised name of its target and shares at least 3 tokens of length at least
  6 with its normalised explanation, \<^verbatim>\<open>run_check\<close> sets \<open>checked\<close> to true and the confidence
  to \<open>clamp01 ((old + score) / 2)\<close>, where the score is between 0.55 and 1, and at least 0.76
  when the snippet has at most 12 different long tokens. The new confidence is at most 1 and
  lies between the old confidence and the score: it is between the old value and 1.0 when
  the old value is not above the score, and below the old value otherwise.
\<close>

theorem supported_edge_checked_mean:
  assumes "runtime_ok rt" and "i < length (edges g)"
    and "e = edges g ! i" and "nn = node_names (nodes g)"
    and "title (evidence e) \<noteq> []" and "snippet (evidence e) \<noteq> []"
    and "strip (explanation e) \<noteq> []"
    and "sn = norm rt (snippet (evidence e))"
    and "mentions sn (norm rt (dict_get nn (target e) (target e)))"
    and "3 \<le> length (shared_tokens sn (norm rt (explanation e)))"
    and "score = clamp01 (0.55 + 0.07 * real (overlap rt sn (norm rt (explanation e))))"
    and "e' = edges (run_check rt g strict) ! i"
  shows "checked e' = True \<and>
         confidence e' = clamp01 ((confidence e + score) / 2) \<and>
         (if length (remdups (long_tokens sn)) \<le> 12 then 0.76 else 0.55) \<le> score \<and>
         score \<le> 1 \<and>
         min (confidence e) score \<le> confidence e' \<and>
         confidence e' \<le> max (confidence e) score \<and>
         confidence e' \<le> 1"
proof -
  have sn_ne: "sn \<noteq> []"
    using assms(9) by (rule mentions_nonempty)
  have "\<exists>r. evidence_check rt e (dict_get nn (source e) (source e)) (dict_get nn (target e) (target e))
      = (True, score, r)"
    using assms(5-9,11) sn_ne by (simp add: evidence_check_def Let_def)
  then obtain r where 1:
    "evidence_check rt e (dict_get nn (source e) (source e)) (dict_get nn (target e) (target e))
      = (True, score, r)" by blast
  have res: "checked e' = True \<and> confidence e' = clamp01 ((confidence e + score) / 2)"
    using check_edge_result [OF refl 1, of strict] assms(3,4,12)
    by (simp add: run_check_nth [OF assms(2)])
  have b: "0.55 \<le> score \<and> score \<le> 1"
    unfolding assms(11) by (rule score_bounds)
  have c: "0.76 \<le> score" if "length (remdups (long_tokens sn)) \<le> 12"
    unfolding assms(11) using overlap_all [OF assms(1) that] assms(10) score_three by simp
  show ?thesis
    using res b c mean_between [of score "confidence e"] by simp
qed

theorem supported_edge_checked_mean_witness:
  "runtime_ok rt0 \<and> 0 < length (edges (graph_c9 (pys ''Entropy'') 0.5)) \<and>
   title (evidence (edges (graph_c9 (pys ''Entropy'') 0.5) ! 0)) \<noteq> [] \<and>
   3 \<le> length (shared_tokens
          (norm rt0 (snippet (evidence (edges (graph_c9 (pys ''Entropy'') 0.5) ! 0))))
          (norm rt0 (explanation (edges (graph_c9 (pys ''Entropy'') 0.5) ! 0)))) \<and>
   checked (edges (run_check rt0 (graph_c9 (pys ''Entropy'') 0.5) True) ! 0) = True \<and>
   confidence (edges (run_check rt0 (graph_c9 (pys ''Entropy'') 0.5) True) ! 0) \<le> 1"
proof -
  let ?g = "graph_c9 (pys ''Entropy'') 0.5"
  let ?e = "edges ?g ! 0"
  let ?nn = "node_names (nodes ?g)"
  let ?sn = "norm rt0 (snippet (evidence ?e))"
  have h2: "0 < length (edges ?g)" by (simp add: eval_defs)
  have h5: "title (evidence ?e) \<noteq> []" by (simp add: eval_defs)
  have h6: "snippet (evidence ?e) \<noteq> []" by (simp add: eval_defs)
  have h7: "strip (explanation ?e) \<noteq> []" by (simp add: eval_defs)
  have h9: "mentions ?sn (norm rt0 (dict_get ?nn (target ?e) (target ?e)))"
    by (simp add: eval_defs)
  have h10: "3 \<le> length (shared_tokens ?sn (norm rt0 (explanation ?e)))"
    by (simp add: eval_defs)
  show ?thesis
    using supported_edge_checked_mean [OF runtime_ok_rt0 h2 refl refl h5 h6 h7 refl h9 h10 refl refl,
        of True]
      runtime_ok_rt0 h2 h5 h10
    by blast
qed

subsection \<open>A snippet that normalises to the empty string\<close>

text \<open>
  Claim C10, as stated, fails: in \<open>graph_c10 (pys '' '')\<close> the title, the snippet and the
  explanation are not empty and no character of the snippet is kept by the normalisation,
  but the explanation is a single space, so the reason is that of the hard rule.
\<close>

theorem blank_explanation_other_reason:
  "(let e = edges (graph_c10 (pys '' '')) ! 0
    in title (evidence e) \<noteq> [] \<and> snippet (evidence e) \<noteq> [] \<and> explanation e \<noteq> [] \<and>
       (\<forall>c\<in>set (lower rt0 (snippet (evidence e))). \<not> keeps c)) \<and>
   check_reason (edges (run_check rt0 (graph_c10 (pys '' '')) True) ! 0)
     = Some (pys ''Missing explanation.'') \<and>
   pys ''Missing explanation.'' \<noteq> pys ''Empty evidence snippet.''"
  by (simp add: eval_defs)

text \<open>
  Claim C10, amended: for every edge whose evidence title and snippet are not empty, whose
  explanation has a character that is not white space, and whose snippet, once in lower
  case, has no character among a-z, 0-9 and the CJK range (so that its normal form is the
  empty string), \<^verbatim>\<open>run_check\<close> sets the reason ``Empty evidence snippet.'', sets \<open>checked\<close>
  to false and the confidence to \<open>clamp01 (old * 0.45)\<close>.
\<close>

theorem empty_normalised_snippet_fails:
  assumes "i < length (edges g)" and "e = edges g ! i"
    and "title (evidence e) \<noteq> []" and "snippet (evidence e) \<noteq> []"
    and "strip (explanation e) \<noteq> []"
    and "\<forall>c\<in>set (lower rt (snippet (evidence e))). \<not> keeps c"
    and "e' = edges (run_check rt g strict) ! i"
  shows "norm rt (snippet (evidence e)) = [] \<and>
         check_reason e' = Some (pys ''Empty evidence snippet.'') \<and>
         checked e' = False \<and>
         confidence e' = clamp01 (confidence e * 0.45)"
proof -
  have n: "norm rt (snippet (evidence e)) = []"
    using assms(6) by (rule norm_no_kept_char)
  have 1: "evidence_check rt e sn tn = (False, 0, pys ''Empty evidence snippet.'')" for sn tn
    using assms(3-5) n by (simp add: evidence_check_def)
  show ?thesis
    using check_edge_result [OF refl 1, of strict] assms(2,7) n
    by (simp add: run_check_nth [OF assms(1)])
qed

theorem empty_normalised_snippet_fails_witness:
  "0 < length (edges (graph_c10 (pys ''Alpha relates to entropy.''))) \<and>
   strip (explanation (edges (graph_c10 (pys ''Alpha relates to entropy.'')) ! 0)) \<noteq> [] \<and>
   list_all (\<lambda>c. \<not> keeps c)
     (lower rt0 (snippet (evidence (edges (graph_c10 (pys ''Alpha relates to entropy.'')) ! 0)))) \<and>
   check_reason (edges (run_check rt0 (graph_c10 (pys ''Alpha relates to entropy.'')) True) ! 0)
     = Some (pys ''Empty evidence snippet.'') \<and>
   checked (edges (run_check rt0 (graph_c10 (pys ''Alpha relates to entropy.'')) True) ! 0) = False"
proof -
  let ?g = "graph_c10 (pys ''Alpha relates to entropy.'')"
  let ?e = "edges ?g ! 0"
  have h1: "0 < length (edges ?g)" by (simp add: eval_defs)
  have h3: "title (evidence ?e) \<noteq> []" by (simp add: eval_defs)
  have h4: "snippet (evidence ?e) \<noteq> []" by (simp add: eval_defs)
  have h5: "strip (explanation ?e) \<noteq> []" by (simp add: eval_defs)
  have h6: "\<forall>c\<in>set (lower rt0 (snippet (evidence ?e))). \<not> keeps c" by (simp add: eval_defs)
  show ?thesis
    using empty_normalised_snippet_fails [OF h1 refl h3 h4 h5 h6 refl, of True] h1 h5 h6
    unfolding list_all_iff by blast
qed

section \<open>Properties of the graph normaliser\<close>

subsection \<open>Dicts as association lists\<close>

lemma set_update_subset: "set (AList.update k v al) \<subseteq> insert (k, v) (set al)"
  by (induction al) auto

lemma update_absent: "map_of al k = None \<Longrightarrow> AList.update k v al = al @ [(k, v)]"
  by (induction al) (auto split: if_splits)

lemma update_present_keys: "map_of al k = Some v' \<Longrightarrow> map fst (AList.update k v al) = map fst al"
  by (induction al) (auto split: if_splits)

lemma merge_nodes_inv:
  assumes "merge_nodes rt ns (kept, im, n) = (kept', im', n')"
    and "ran im \<subseteq> node_id ` snd ` set kept"
  shows "ran im' \<subseteq> node_id ` snd ` set kept' \<and> node_id ` set ns \<subseteq> dom im'
         \<and> dom im \<subseteq> dom im'"
  using assms
proof (induction ns arbitrary: kept im n)
  case Nil
  then show ?case by simp
next
  case (Cons a ns)
  let ?key = "node_key rt (name a) (domain a)"
  show ?case
  proof (cases "map_of kept ?key")
    case None
    let ?kept1 = "AList.update ?key a kept"
    let ?im1 = "im(node_id a \<mapsto> node_id a)"
    have run: "merge_nodes rt ns (?kept1, ?im1, n) = (kept', im', n')"
      using Cons.prems(1) None by simp
    have "set ?kept1 = insert (?key, a) (set kept)"
      using None by (simp add: update_absent)
    then have "ran ?im1 \<subseteq> node_id ` snd ` set ?kept1"
      using Cons.prems(2) by (auto simp: ran_def split: if_splits)
    from Cons.IH [OF run this]
    have r: "ran im' \<subseteq> node_id ` snd ` set kept'" "node_id ` set ns \<subseteq> dom im'"
      "dom ?im1 \<subseteq> dom im'" by blast+
    have "dom im \<subseteq> dom ?im1" "node_id a \<in> dom ?im1" by auto
    with r show ?thesis by auto
  next
    case (Some m)
    let ?im1 = "im(node_id a \<mapsto> node_id m)"
    have run: "merge_nodes rt ns (kept, ?im1, n + 1) = (kept', im', n')"
      using Cons.prems(1) Some by simp
    have "(?key, m) \<in> set kept" using Some by (rule map_of_SomeD)
    then have "node_id m \<in> node_id ` snd ` set kept" by force
    then have "ran ?im1 \<subseteq> node_id ` snd ` set kept"
      using Cons.prems(2) by (auto simp: ran_def split: if_splits)
    from Cons.IH [OF run this]
    have r: "ran im' \<subseteq> node_id ` snd ` set kept'" "node_id ` set ns \<subseteq> dom im'"
      "dom ?im1 \<subseteq> dom im'" by blast+
    have "dom im \<subseteq> dom ?im1" "node_id a \<in> dom ?im1" by auto
    with r show ?thesis by auto
  qed
qed

lemma nodes_phase_ids:
  assumes "nodes_phase rt ns = (kept, im, n)"
  shows "ran im \<subseteq> node_id ` set (map snd kept)" and "node_id ` set ns \<subseteq> dom im"
  using merge_nodes_inv [OF assms [unfolded nodes_phase_def]] by auto

lemma remap_edge_fields [simp]:
  "source (remap_edge rt im e) = dict_get im (source e) (source e)"
  "target (remap_edge rt im e) = dict_get im (target e) (target e)"
  "relation (remap_edge rt im e) = relation e"
  "confidence (remap_edge rt im e) = confidence e"
  "flags (remap_edge rt im e) = flags e"
  "evidence (remap_edge rt im e) = evidence e"
  "explanation (remap_edge rt im e) = explanation e"
  by (simp_all add: remap_edge_def ensure_id_def Let_def)

lemma absorb_fields [simp]:
  "source (absorb rt w l) = source w" "target (absorb rt w l) = target w"
  "relation (absorb rt w l) = relation w" "confidence (absorb rt w l) = confidence w"
  "edge_id (absorb rt w l) = edge_id w" "explanation (absorb rt w l) = explanation w"
  "checked (absorb rt w l) = checked w" "check_reason (absorb rt w l) = check_reason w"
  by (simp_all add: absorb_def Let_def)

lemma dedup_edges_pred:
  assumes "\<And>e. e \<in> set es \<Longrightarrow> Q (edge_key_of (remap_edge rt im e)) (remap_edge rt im e)"
    and "\<And>k w l. Q k w \<Longrightarrow> Q k l \<Longrightarrow> Q k (absorb rt w l)"
    and "\<And>k e. (k, e) \<in> set out \<Longrightarrow> Q k e"
    and "(k, e) \<in> set (fst (dedup_edges rt im es (out, n)))"
  shows "Q k e"
  using assms(1,3,4)
proof (induction es arbitrary: out n)
  case Nil
  then show ?case by simp
next
  case (Cons a es)
  let ?e = "remap_edge rt im a"
  let ?k = "edge_key_of ?e"
  have qa: "Q ?k ?e" using Cons.prems(1) by simp
  have rest: "\<And>e. e \<in> set es \<Longrightarrow> Q (edge_key_of (remap_edge rt im e)) (remap_edge rt im e)"
    using Cons.prems(1) by simp
  show ?case
  proof (cases "map_of out ?k")
    case None
    have mem: "(k, e) \<in> set (fst (dedup_edges rt im es (AList.update ?k ?e out, n)))"
      using Cons.prems(3) None by (simp add: Let_def)
    have "\<And>k' e'. (k', e') \<in> set (AList.update ?k ?e out) \<Longrightarrow> Q k' e'"
      using set_update_subset [of ?k ?e out] Cons.prems(2) qa by auto
    from Cons.IH [OF rest this mem] show ?thesis .
  next
    case (Some cur)
    have qc: "Q ?k cur" using Cons.prems(2) map_of_SomeD [OF Some] by simp
    show ?thesis
    proof (cases "confidence ?e \<le> confidence cur")
      case True
      let ?v = "absorb rt cur ?e"
      have mem: "(k, e) \<in> set (fst (dedup_edges rt im es (AList.update ?k ?v out, n + 1)))"
        using Cons.prems(3) Some True by (simp add: Let_def)
      have "\<And>k' e'. (k', e') \<in> set (AList.update ?k ?v out) \<Longrightarrow> Q k' e'"
        using set_update_subset [of ?k ?v out] Cons.prems(2) assms(2) [OF qc qa] by auto
      from Cons.IH [OF rest this mem] show ?thesis .
    next
      case False
      let ?v = "absorb rt ?e cur"
      have mem: "(k, e) \<in> set (fst (dedup_edges rt im es (AList.update ?k ?v out, n + 1)))"
        using Cons.prems(3) Some False by (simp add: Let_def)
      have "\<And>k' e'. (k', e') \<in> set (AList.update ?k ?v out) \<Longrightarrow> Q k' e'"
        using set_update_subset [of ?k ?v out] Cons.prems(2) assms(2) [OF qa qc] by auto
      from Cons.IH [OF rest this mem] show ?thesis .
    qed
  qed
qed

lemma dedup_edges_distinct:
  "distinct (map fst out) \<Longrightarrow> distinct (map fst (fst (dedup_edges rt im es (out, n))))"
proof (induction es arbitrary: out n)
  case Nil
  then show ?case by simp
next
  case (Cons a es)
  have "distinct (map fst (AList.update k v out))" for k v
    using Cons.prems by (rule distinct_update)
  then show ?case
    using Cons.IH by (simp add: Let_def split: option.splits)
qed

lemma map_of_nth:
  assumes "distinct (map fst al)" and "i < length al"
  shows "map_of al (fst (al ! i)) = Some (snd (al ! i))"
  using assms by (simp add: map_of_is_SomeI)

lemma alist_map_eq:
  assumes "distinct (map fst al)" and "map fst al' = map fst al"
    and "\<And>k. map_of al' k = map_option (h k) (map_of al k)"
  shows "al' = map (\<lambda>(k, v). (k, h k v)) al"
proof (rule nth_equalityI)
  have len: "length al' = length al"
    using assms(2) by (metis length_map)
  then show "length al' = length (map (\<lambda>(k, v). (k, h k v)) al)" by simp
  fix i assume i: "i < length al'"
  then have i2: "i < length al" using len by simp
  have k: "fst (al' ! i) = fst (al ! i)"
    using assms(2) i i2 by (metis nth_map)
  have d': "distinct (map fst al')" using assms(1,2) by simp
  have "map_of al' (fst (al' ! i)) = Some (snd (al' ! i))"
    using d' i by (rule map_of_nth)
  moreover have "map_of al (fst (al ! i)) = Some (snd (al ! i))"
    using assms(1) i2 by (rule map_of_nth)
  ultimately have "snd (al' ! i) = h (fst (al ! i)) (snd (al ! i))"
    using assms(3) [of "fst (al ! i)"] k by simp
  then show "al' ! i = map (\<lambda>(k, v). (k, h k v)) al ! i"
    using k i2 by (simp add: prod_eq_iff case_prod_beta)
qed

lemma flag_rels_char:
  assumes "distinct rels" and "\<And>rel. rel \<in> set rels \<Longrightarrow> (s, t, rel) \<in> fst ` set out"
  shows "\<exists>out' n'. flag_rels s t rels (out, n) = Some (out', n') \<and> map fst out' = map fst out \<and>
           (\<forall>k. map_of out' k =
              (if k \<in> (\<lambda>rel. (s, t, rel)) ` set rels then map_option mark_conflict (map_of out k)
               else map_of out k))"
  using assms
proof (induction rels arbitrary: out n)
  case Nil
  then show ?case by simp
next
  case (Cons rel rels)
  have "(s, t, rel) \<in> fst ` set out" using Cons.prems(2) by simp
  then obtain e where e: "map_of out (s, t, rel) = Some e"
    by (metis map_of_eq_None_iff not_Some_eq)
  let ?out1 = "AList.update (s, t, rel) (mark_conflict e) out"
  let ?n1 = "if pys ''conflict'' \<notin> set (flags e) then n + 1 else n"
  have keys: "map fst ?out1 = map fst out"
    using e by (rule update_present_keys)
  have d: "distinct rels" and notin: "rel \<notin> set rels" using Cons.prems(1) by simp_all
  have mem: "\<And>r. r \<in> set rels \<Longrightarrow> (s, t, r) \<in> fst ` set ?out1"
  proof -
    fix r assume "r \<in> set rels"
    then have "(s, t, r) \<in> set (map fst out)" using Cons.prems(2) by simp
    then show "(s, t, r) \<in> fst ` set ?out1" using keys by (metis set_map)
  qed
  from Cons.IH [OF d mem, of ?n1] obtain out' n' where
    r: "flag_rels s t rels (?out1, ?n1) = Some (out', n')" "map fst out' = map fst ?out1"
      "\<And>k. map_of out' k =
              (if k \<in> (\<lambda>rel. (s, t, rel)) ` set rels then map_option mark_conflict (map_of ?out1 k)
               else map_of ?out1 k)" by blast
  have run: "flag_rels s t (rel # rels) (out, n) = Some (out', n')"
    using e r(1) by simp
  have m1: "map_of ?out1 = (map_of out)((s, t, rel) \<mapsto> mark_conflict e)"
    by (rule update_conv')
  have "map_of out' k =
          (if k \<in> (\<lambda>rel. (s, t, rel)) ` set (rel # rels) then map_option mark_conflict (map_of out k)
           else map_of out k)" for k
  proof (cases "k = (s, t, rel)")
    case True
    then have "k \<notin> (\<lambda>rel. (s, t, rel)) ` set rels" using notin by auto
    then show ?thesis using r(3) [of k] True e by (simp add: m1)
  next
    case False
    then show ?thesis using r(3) [of k] by (auto simp: m1)
  qed
  then show ?case using run r(2) keys by simp
qed

subsection \<open>The conflict pass\<close>

lemma pair_inv_step:
  assumes "pair_inv ks bp"
  shows "pair_inv (ks @ [k]) (by_pair_add k bp)"
proof -
  obtain s t rel where k: "k = (s, t, rel)" by (cases k)
  from assms have d: "distinct (map fst bp)"
    and sets: "\<And>s t rels. map_of bp (s, t) = Some rels \<Longrightarrow>
        distinct rels \<and> set rels = {rel. (s, t, rel) \<in> set ks}"
    and dom: "\<And>s t rel. (s, t, rel) \<in> set ks \<Longrightarrow> map_of bp (s, t) \<noteq> None"
    unfolding pair_inv_def by blast+
  let ?bp = "by_pair_add k bp"
  have new: "\<exists>r. ?bp = AList.update (s, t) r bp \<and> distinct r \<and>
      set r = insert rel {r. (s, t, r) \<in> set ks}"
  proof (cases "map_of bp (s, t)")
    case None
    have e: "{r. (s, t, r) \<in> set ks} = {}" using dom None by blast
    have "?bp = AList.update (s, t) [rel] bp" using None by (simp add: by_pair_add_def k)
    then show ?thesis using e by (intro exI [of _ "[rel]"]) simp
  next
    case (Some rels)
    let ?r = "if rel \<in> set rels then rels else rels @ [rel]"
    have "?bp = AList.update (s, t) ?r bp" using Some by (simp add: by_pair_add_def k)
    moreover have "distinct ?r \<and> set ?r = insert rel {r. (s, t, r) \<in> set ks}"
      using sets [OF Some] by auto
    ultimately show ?thesis by blast
  qed
  then obtain r where r: "?bp = AList.update (s, t) r bp" "distinct r"
    "set r = insert rel {r. (s, t, r) \<in> set ks}" by blast
  have m: "map_of ?bp = (map_of bp)((s, t) \<mapsto> r)"
    unfolding r(1) by (rule update_conv')
  have D: "distinct (map fst ?bp)"
    unfolding r(1) using d by (rule distinct_update)
  have S: "distinct rels' \<and> set rels' = {x. (s', t', x) \<in> set (ks @ [k])}"
    if "map_of ?bp (s', t') = Some rels'" for s' t' rels'
  proof (cases "(s', t') = (s, t)")
    case True
    then have "rels' = r" using that by (simp add: m)
    then show ?thesis using r(2,3) True by (auto simp: k)
  next
    case False
    then have "map_of bp (s', t') = Some rels'" using that by (auto simp: m split: if_splits)
    from sets [OF this] show ?thesis using False by (auto simp: k)
  qed
  have N: "map_of ?bp (s', t') \<noteq> None" if "(s', t', x) \<in> set (ks @ [k])" for s' t' x
  proof (cases "(s', t') = (s, t)")
    case True
    then show ?thesis by (simp add: m)
  next
    case False
    then have "(s', t', x) \<in> set ks" using that by (auto simp: k)
    from dom [OF this] show ?thesis using False by (simp add: m)
  qed
  show ?thesis
    unfolding pair_inv_def using D S N by blast
qed

lemma pair_inv_by_pair_of: "pair_inv ks (by_pair_of ks)"
proof (induction ks rule: rev_induct)
  case Nil
  show ?case by (simp add: pair_inv_def by_pair_of_def)
next
  case (snoc k ks)
  then show ?case using pair_inv_step [of ks "by_pair_of ks" k] by (simp add: by_pair_of_def)
qed

lemma flag_pairs_char:
  assumes "runtime_ok rt" and "distinct (map fst bp)"
    and "\<And>s t rels rel. ((s, t), rels) \<in> set bp \<Longrightarrow> rel \<in> set rels \<Longrightarrow> (s, t, rel) \<in> fst ` set out"
  shows "\<exists>out' n'. flag_pairs rt bp (out, n) = Some (out', n') \<and> map fst out' = map fst out \<and>
           (\<forall>k. map_of out' k =
              (if \<exists>s t rel rels. k = (s, t, rel) \<and> ((s, t), rels) \<in> set bp \<and> 1 < length rels \<and> rel \<in> set rels
               then map_option mark_conflict (map_of out k)
               else map_of out k))"
  using assms(2,3)
proof (induction bp arbitrary: out n)
  case Nil
  then show ?case by simp
next
  case (Cons p ps)
  obtain s t rels where p: "p = ((s, t), rels)" by (cases p) auto
  have dps: "distinct (map fst ps)" and fresh: "(s, t) \<notin> fst ` set ps"
    using Cons.prems(1) by (simp_all add: p)
  have memps: "(s', t', rel) \<in> fst ` set out'"
    if a: "map fst out' = map fst out" "((s', t'), rels') \<in> set ps" "rel \<in> set rels'"
    for s' t' rels' rel and out' :: "(edge_key \<times> Edge) list"
  proof -
    from a(2) have "((s', t'), rels') \<in> set (p # ps)" by simp
    from Cons.prems(2) [OF this a(3)] have "(s', t', rel) \<in> set (map fst out)" by simp
    then have "(s', t', rel) \<in> set (map fst out')" using a(1) by simp
    then show ?thesis by simp
  qed
  show ?case
  proof (cases "length rels \<le> 1")
    case True
    have "\<exists>out' n'. flag_pairs rt ps (out, n) = Some (out', n') \<and> map fst out' = map fst out \<and>
           (\<forall>k. map_of out' k =
              (if \<exists>s t rel rels. k = (s, t, rel) \<and> ((s, t), rels) \<in> set ps \<and> 1 < length rels \<and> rel \<in> set rels
               then map_option mark_conflict (map_of out k)
               else map_of out k))"
      by (rule Cons.IH [OF dps]) (rule memps [OF refl])
    then obtain out' n' where
      r: "flag_pairs rt ps (out, n) = Some (out', n')" "map fst out' = map fst out"
      "\<And>k. map_of out' k =
              (if \<exists>s t rel rels. k = (s, t, rel) \<and> ((s, t), rels) \<in> set ps \<and> 1 < length rels \<and> rel \<in> set rels
               then map_option mark_conflict (map_of out k)
               else map_of out k)" by blast
    have run: "flag_pairs rt (p # ps) (out, n) = Some (out', n')"
      using True r(1) by (simp add: p)
    have same: "(\<exists>s' t' rel rels'. k = (s', t', rel) \<and> ((s', t'), rels') \<in> set (p # ps) \<and> 1 < length rels' \<and> rel \<in> set rels')
       = (\<exists>s' t' rel rels'. k = (s', t', rel) \<and> ((s', t'), rels') \<in> set ps \<and> 1 < length rels' \<and> rel \<in> set rels')" for k
      using True by (auto simp: p)
    show ?thesis
      using run r(2) r(3) unfolding same by blast
  next
    case False
    let ?L = "set_iter rt rels"
    have dL: "distinct ?L" and sL: "set ?L = set rels"
      using assms(1) by (simp_all add: runtime_ok_def)
    have "\<And>rel. rel \<in> set ?L \<Longrightarrow> (s, t, rel) \<in> fst ` set out"
      using Cons.prems(2) [of s t rels] by (simp add: p sL)
    from flag_rels_char [OF dL this, of n] obtain out1 n1 where
      r1: "flag_rels s t ?L (out, n) = Some (out1, n1)" "map fst out1 = map fst out"
      "\<And>k. map_of out1 k =
              (if k \<in> (\<lambda>rel. (s, t, rel)) ` set ?L then map_option mark_conflict (map_of out k)
               else map_of out k)" by blast
    have "\<exists>out' n'. flag_pairs rt ps (out1, n1) = Some (out', n') \<and> map fst out' = map fst out1 \<and>
           (\<forall>k. map_of out' k =
              (if \<exists>s t rel rels. k = (s, t, rel) \<and> ((s, t), rels) \<in> set ps \<and> 1 < length rels \<and> rel \<in> set rels
               then map_option mark_conflict (map_of out1 k)
               else map_of out1 k))"
      by (rule Cons.IH [OF dps]) (rule memps [OF r1(2)])
    then obtain out' n' where
      r: "flag_pairs rt ps (out1, n1) = Some (out', n')" "map fst out' = map fst out1"
      "\<And>k. map_of out' k =
              (if \<exists>s t rel rels. k = (s, t, rel) \<and> ((s, t), rels) \<in> set ps \<and> 1 < length rels \<and> rel \<in> set rels
               then map_option mark_conflict (map_of out1 k)
               else map_of out1 k)" by blast
    have run: "flag_pairs rt (p # ps) (out, n) = Some (out', n')"
      using False r1(1) r(1) by (simp add: p)
    have "map_of out' k =
              (if \<exists>s t rel rels. k = (s, t, rel) \<and> ((s, t), rels) \<in> set (p # ps) \<and> 1 < length rels \<and> rel \<in> set rels
               then map_option mark_conflict (map_of out k)
               else map_of out k)" for k
    proof (cases "\<exists>s t rel rels. k = (s, t, rel) \<and> ((s, t), rels) \<in> set ps \<and> 1 < length rels \<and> rel \<in> set rels")
      case True
      then obtain s' t' rel' rels' where k: "k = (s', t', rel')" "((s', t'), rels') \<in> set ps" by blast
      then have "(s', t') \<noteq> (s, t)" using fresh by force
      then have "k \<notin> (\<lambda>rel. (s, t, rel)) ` set ?L" using k(1) by auto
      then have "map_of out1 k = map_of out k" using r1(3) [of k] by simp
      then show ?thesis using r(3) [of k] True by auto
    next
      case F2: False
      have here: "(\<exists>s' t' rel rels'. k = (s', t', rel) \<and> ((s', t'), rels') \<in> set (p # ps) \<and> 1 < length rels' \<and> rel \<in> set rels')
          = (k \<in> (\<lambda>rel. (s, t, rel)) ` set ?L)"
      proof
        assume "\<exists>s' t' rel rels'. k = (s', t', rel) \<and> ((s', t'), rels') \<in> set (p # ps) \<and> 1 < length rels' \<and> rel \<in> set rels'"
        then obtain s' t' rel rels' where
          h: "k = (s', t', rel)" "((s', t'), rels') \<in> set (p # ps)" "1 < length rels'" "rel \<in> set rels'"
          by blast
        from h F2 have "((s', t'), rels') \<notin> set ps" by blast
        with h(2) have "s' = s" "t' = t" "rels' = rels" by (simp_all add: p)
        with h(1,4) show "k \<in> (\<lambda>rel. (s, t, rel)) ` set ?L" by (simp add: sL)
      next
        assume "k \<in> (\<lambda>rel. (s, t, rel)) ` set ?L"
        then obtain rel where "k = (s, t, rel)" "rel \<in> set rels" by (auto simp: sL)
        moreover have "((s, t), rels) \<in> set (p # ps)" "1 < length rels"
          using False by (simp_all add: p)
        ultimately show "\<exists>s' t' rel rels'. k = (s', t', rel) \<and> ((s', t'), rels') \<in> set (p # ps) \<and> 1 < length rels' \<and> rel \<in> set rels'"
          by blast
      qed
      have o': "map_of out' k = map_of out1 k"
        using r(3) [of k] F2 by (simp only: if_False)
      show ?thesis
      proof (cases "k \<in> (\<lambda>rel. (s, t, rel)) ` set ?L")
        case True
        have "map_of out1 k = map_option mark_conflict (map_of out k)"
          using r1(3) [of k] True by (simp only: if_True)
        with o' show ?thesis
          unfolding here using True by (simp only: if_True)
      next
        case F3: False
        have "map_of out1 k = map_of out k"
          using r1(3) [of k] F3 by (simp only: if_False)
        with o' show ?thesis
          unfolding here using F3 by (simp only: if_False)
      qed
    qed
    then show ?thesis using run r(2) r1(2) by simp
  qed
qed

lemma other_relation_iff:
  "other_relation ks (s, t, rel) \<longleftrightarrow> (\<exists>rel'. rel' \<noteq> rel \<and> (s, t, rel') \<in> set ks)"
  by (force simp: other_relation_def list_ex_iff)

lemma distinct_more_than_one:
  assumes "distinct rels" and "rel \<in> set rels"
  shows "1 < length rels \<longleftrightarrow> (\<exists>r\<in>set rels. r \<noteq> rel)"
proof
  assume l: "1 < length rels"
  then obtain a rs where 1: "rels = a # rs" by (cases rels) auto
  with l obtain b rest where 2: "rs = b # rest" by (cases rs) auto
  from assms(1) 1 2 have "a \<noteq> b" by simp
  then show "\<exists>r\<in>set rels. r \<noteq> rel"
    unfolding 1 2 by (cases "a = rel") auto
next
  assume "\<exists>r\<in>set rels. r \<noteq> rel"
  then obtain r where r: "r \<in> set rels" "r \<noteq> rel" by blast
  show "1 < length rels"
  proof (rule ccontr)
    assume "\<not> 1 < length rels"
    then have "length rels \<le> 1" by simp
    then have "rels = [] \<or> (\<exists>x. rels = [x])" by (cases rels) auto
    with r assms(2) show False by auto
  qed
qed

lemma conflict_pass:
  assumes "runtime_ok rt" and "distinct (map fst out)"
  shows "\<exists>n. flag_pairs rt (by_pair_of (map fst out)) (out, 0) =
           Some (map (\<lambda>(k, e). (k, if other_relation (map fst out) k then mark_conflict e else e)) out, n)"
proof -
  let ?ks = "map fst out"
  let ?bp = "by_pair_of ?ks"
  have inv: "pair_inv ?ks ?bp" by (rule pair_inv_by_pair_of)
  then have d: "distinct (map fst ?bp)"
    and sets: "\<And>s t rels. map_of ?bp (s, t) = Some rels \<Longrightarrow>
        distinct rels \<and> set rels = {rel. (s, t, rel) \<in> set ?ks}"
    and dom: "\<And>s t rel. (s, t, rel) \<in> set ?ks \<Longrightarrow> map_of ?bp (s, t) \<noteq> None"
    unfolding pair_inv_def by blast+
  have look: "map_of ?bp (s, t) = Some rels" if "((s, t), rels) \<in> set ?bp" for s t rels
    using d that by (rule map_of_is_SomeI)
  have mem: "(s, t, rel) \<in> fst ` set out" if "((s, t), rels) \<in> set ?bp" "rel \<in> set rels" for s t rels rel
    using sets [OF look [OF that(1)]] that(2) by auto
  have "\<exists>out' n'. flag_pairs rt ?bp (out, 0) = Some (out', n') \<and> map fst out' = map fst out \<and>
           (\<forall>k. map_of out' k =
              (if \<exists>s t rel rels. k = (s, t, rel) \<and> ((s, t), rels) \<in> set ?bp \<and> 1 < length rels \<and> rel \<in> set rels
               then map_option mark_conflict (map_of out k)
               else map_of out k))"
  proof (rule flag_pairs_char [OF assms(1) d])
    fix s t rels rel
    assume "((s, t), rels) \<in> set ?bp" "rel \<in> set rels"
    then show "(s, t, rel) \<in> fst ` set out" by (rule mem)
  qed
  then obtain out' n' where
    r: "flag_pairs rt ?bp (out, 0) = Some (out', n')" "map fst out' = map fst out"
      "\<And>k. map_of out' k =
              (if \<exists>s t rel rels. k = (s, t, rel) \<and> ((s, t), rels) \<in> set ?bp \<and> 1 < length rels \<and> rel \<in> set rels
               then map_option mark_conflict (map_of out k)
               else map_of out k)" by blast
  have "map_of out' k = map_option (\<lambda>e. if other_relation ?ks k then mark_conflict e else e) (map_of out k)" for k
  proof (cases "map_of out k")
    case None
    then show ?thesis using r(3) [of k] by simp
  next
    case (Some e)
    obtain s t rel where k: "k = (s, t, rel)" by (cases k)
    have kin: "(s, t, rel) \<in> set ?ks"
      using map_of_SomeD [OF Some] k by force
    from dom [OF kin] obtain rels where rels: "map_of ?bp (s, t) = Some rels" by blast
    have in_bp: "((s, t), rels) \<in> set ?bp" using rels by (rule map_of_SomeD)
    have dr: "distinct rels" and sr: "set rels = {rel. (s, t, rel) \<in> set ?ks}"
      using sets [OF rels] by simp_all
    have relin: "rel \<in> set rels" using sr kin by simp
    have "(\<exists>s' t' rel' rels'. k = (s', t', rel') \<and> ((s', t'), rels') \<in> set ?bp \<and> 1 < length rels' \<and> rel' \<in> set rels')
        = (1 < length rels)"
    proof
      assume "\<exists>s' t' rel' rels'. k = (s', t', rel') \<and> ((s', t'), rels') \<in> set ?bp \<and> 1 < length rels' \<and> rel' \<in> set rels'"
      then obtain rels' where a: "((s, t), rels') \<in> set ?bp" "1 < length rels'" using k by blast
      from look [OF a(1)] rels have "rels' = rels" by simp
      with a(2) show "1 < length rels" by simp
    next
      assume "1 < length rels"
      then show "\<exists>s' t' rel' rels'. k = (s', t', rel') \<and> ((s', t'), rels') \<in> set ?bp \<and> 1 < length rels' \<and> rel' \<in> set rels'"
        using k in_bp relin by blast
    qed
    also have "\<dots> = (\<exists>r\<in>set rels. r \<noteq> rel)"
      by (rule distinct_more_than_one [OF dr relin])
    also have "\<dots> = (\<exists>rel'. rel' \<noteq> rel \<and> (s, t, rel') \<in> set ?ks)"
      unfolding sr by auto
    also have "\<dots> = other_relation ?ks k"
      unfolding k by (rule other_relation_iff [symmetric])
    finally have c: "(\<exists>s' t' rel' rels'. k = (s', t', rel') \<and> ((s', t'), rels') \<in> set ?bp \<and> 1 < length rels' \<and> rel' \<in> set rels')
        = other_relation ?ks k" .
    show ?thesis
      using r(3) [of k] unfolding c by (simp add: Some)
  qed
  from alist_map_eq [OF assms(2) r(2) this] r(1) show ?thesis by blast
qed


lemma mark_conflict_fields [simp]:
  "source (mark_conflict e) = source e" "target (mark_conflict e) = target e"
  "relation (mark_conflict e) = relation e" "evidence (mark_conflict e) = evidence e"
  "edge_id (mark_conflict e) = edge_id e" "explanation (mark_conflict e) = explanation e"
  "confidence (mark_conflict e) = clamp01 (confidence e * 0.8)"
  "edge_key_of (mark_conflict e) = edge_key_of e"
  by (simp_all add: mark_conflict_def Let_def clamp01_def edge_key_of_def)

lemma mark_conflict_except:
  "(mark_conflict e)\<lparr>flags := flags e, confidence := confidence e\<rparr> = e"
  by (simp add: mark_conflict_def Let_def)

lemma mark_conflict_flags:
  "pys ''conflict'' \<in> set (flags (mark_conflict e))"
  "count_list (flags e) (pys ''conflict'') \<le> 1 \<Longrightarrow>
     count_list (flags (mark_conflict e)) (pys ''conflict'') = 1"
  "x \<in> set (flags e) \<Longrightarrow> x \<in> set (flags (mark_conflict e))"
proof -
  show "pys ''conflict'' \<in> set (flags (mark_conflict e))"
    by (simp add: mark_conflict_def Let_def)
  show "x \<in> set (flags e) \<Longrightarrow> x \<in> set (flags (mark_conflict e))"
    by (simp add: mark_conflict_def Let_def)
  assume c: "count_list (flags e) (pys ''conflict'') \<le> 1"
  show "count_list (flags (mark_conflict e)) (pys ''conflict'') = 1"
  proof (cases "pys ''conflict'' \<in> set (flags e)")
    case True
    then have "count_list (flags e) (pys ''conflict'') \<noteq> 0"
      using count_list_0_iff [of "flags e" "pys ''conflict''"] by blast
    with c True show ?thesis by (simp add: mark_conflict_def Let_def)
  next
    case False
    then have "count_list (flags e) (pys ''conflict'') = 0"
      by (rule count_notin)
    with False show ?thesis by (simp add: mark_conflict_def Let_def)
  qed
qed

text \<open>The result of \<^verbatim>\<open>merge_synonyms\<close>, from the states after its first two loops.\<close>

lemma merge_synonyms_result:
  assumes "runtime_ok rt"
  shows "\<exists>st. merge_synonyms rt ns es =
           Some (map snd (fst (nodes_phase rt ns)),
                 map (\<lambda>(k, e). if other_relation (map fst (fst (edges_phase rt ns es))) k
                                then mark_conflict e else e) (fst (edges_phase rt ns es)),
                 st)"
proof -
  obtain kept im nm where np: "nodes_phase rt ns = (kept, im, nm)"
    by (cases "nodes_phase rt ns")
  obtain out nr where ep: "edges_phase rt ns es = (out, nr)"
    by (cases "edges_phase rt ns es")
  have "distinct (map fst (fst (dedup_edges rt (id_map_of rt ns) es ([], 0))))"
    by (rule dedup_edges_distinct) simp
  then have d: "distinct (map fst out)"
    using ep by (simp add: edges_phase_def)
  from conflict_pass [OF assms d] obtain n where
    "flag_pairs rt (by_pair_of (map fst out)) (out, 0) =
       Some (map (\<lambda>(k, e). (k, if other_relation (map fst out) k then mark_conflict e else e)) out, n)"
    by blast
  then show ?thesis
    by (simp add: merge_synonyms_def np ep case_prod_beta comp_def)
qed

lemma edges_phase_pred:
  assumes "\<And>e. e \<in> set es \<Longrightarrow>
             Q (edge_key_of (remap_edge rt (id_map_of rt ns) e)) (remap_edge rt (id_map_of rt ns) e)"
    and "\<And>k w l. Q k w \<Longrightarrow> Q k l \<Longrightarrow> Q k (absorb rt w l)"
    and "(k, e) \<in> set (fst (edges_phase rt ns es))"
  shows "Q k e"
proof (rule dedup_edges_pred [where Q = Q and out = "[]" and n = 0 and es = es and rt = rt
      and im = "id_map_of rt ns"])
  show "\<And>e. e \<in> set es \<Longrightarrow>
      Q (edge_key_of (remap_edge rt (id_map_of rt ns) e)) (remap_edge rt (id_map_of rt ns) e)"
    by (rule assms(1))
  show "\<And>k w l. Q k w \<Longrightarrow> Q k l \<Longrightarrow> Q k (absorb rt w l)" by (rule assms(2))
  show "\<And>k e. (k, e) \<in> set [] \<Longrightarrow> Q k e" by simp
  show "(k, e) \<in> set (fst (dedup_edges rt (id_map_of rt ns) es ([], 0)))"
    using assms(3) by (simp add: edges_phase_def)
qed

lemma edges_phase_key:
  assumes "(k, e) \<in> set (fst (edges_phase rt ns es))"
  shows "edge_key_of e = k"
  by (rule edges_phase_pred [where Q = "\<lambda>k e. edge_key_of e = k", OF _ _ assms])
     (simp_all add: edge_key_of_def)

lemma distinct_count_le_one: "distinct xs \<Longrightarrow> count_list xs x \<le> 1"
  by (induction xs) auto

lemma absorb_flags:
  assumes "runtime_ok rt"
  shows "distinct (flags (absorb rt w l))" and "pys ''duplicate'' \<in> set (flags (absorb rt w l))"
  using assms by (simp_all add: absorb_def Let_def runtime_ok_def)

lemma edge_key_parts:
  assumes "edge_key_of e = k"
  shows "source e = fst k" and "target e = fst (snd k)" and "relation e = snd (snd k)"
  using assms [symmetric] by (simp_all add: edge_key_of_def)

lemma in_conflict_iff:
  assumes keys: "\<And>k e. (k, e) \<in> set out \<Longrightarrow> edge_key_of e = k"
    and f: "\<And>k e. edge_key_of (f k e) = edge_key_of e"
    and mem: "(k, e) \<in> set out"
  shows "in_conflict (map (\<lambda>(k, e). f k e) out) (f k e) = other_relation (map fst out) k"
proof -
  have key: "edge_key_of (f k' e') = k'" if "(k', e') \<in> set out" for k' e'
    using keys [OF that] f by simp
  have k: "source (f k e) = fst k" "target (f k e) = fst (snd k)" "relation (f k e) = snd (snd k)"
    by (rule edge_key_parts [OF key [OF mem]])+
  show ?thesis
  proof
    assume "in_conflict (map (\<lambda>(k, e). f k e) out) (f k e)"
    then obtain k' e' where m: "(k', e') \<in> set out"
      and c: "source (f k' e') = source (f k e)" "target (f k' e') = target (f k e)"
        "relation (f k' e') \<noteq> relation (f k e)"
      by (auto simp: in_conflict_def list_ex_iff)
    have "source (f k' e') = fst k'" "target (f k' e') = fst (snd k')" "relation (f k' e') = snd (snd k')"
      by (rule edge_key_parts [OF key [OF m]])+
    with c k have "fst k' = fst k \<and> fst (snd k') = fst (snd k) \<and> snd (snd k') \<noteq> snd (snd k)"
      by simp
    moreover have "k' \<in> set (map fst out)" using m by force
    ultimately show "other_relation (map fst out) k"
      unfolding other_relation_def list_ex_iff by blast
  next
    assume "other_relation (map fst out) k"
    then obtain k' where k': "k' \<in> set (map fst out)"
      "fst k' = fst k \<and> fst (snd k') = fst (snd k) \<and> snd (snd k') \<noteq> snd (snd k)"
      unfolding other_relation_def list_ex_iff by blast
    then obtain e' where m: "(k', e') \<in> set out" by auto
    have "source (f k' e') = fst k'" "target (f k' e') = fst (snd k')" "relation (f k' e') = snd (snd k')"
      by (rule edge_key_parts [OF key [OF m]])+
    with k k'(2) have "source (f k' e') = source (f k e) \<and> target (f k' e') = target (f k e) \<and>
        relation (f k' e') \<noteq> relation (f k e)" by simp
    moreover have "f k' e' \<in> set (map (\<lambda>(k, e). f k e) out)" using m by force
    ultimately show "in_conflict (map (\<lambda>(k, e). f k e) out) (f k e)"
      unfolding in_conflict_def list_ex_iff by blast
  qed
qed

subsection \<open>The deduplication of edges\<close>

lemma dedup_map_of:
  "map_of (fst (dedup_edges rt im es (out, n))) k =
     fold (key_step rt k) (map (remap_edge rt im) es) (map_of out k)"
proof (induction es arbitrary: out n)
  case Nil
  show ?case by simp
next
  case (Cons a es)
  let ?e = "remap_edge rt im a"
  let ?k = "edge_key_of ?e"
  show ?case
  proof (cases "map_of out ?k")
    case None
    have "map_of (fst (dedup_edges rt im (a # es) (out, n))) k
        = map_of (fst (dedup_edges rt im es (AList.update ?k ?e out, n))) k"
      using None by (simp add: Let_def)
    also have "\<dots> = fold (key_step rt k) (map (remap_edge rt im) es)
        (map_of (AList.update ?k ?e out) k)" by (rule Cons.IH)
    also have "map_of (AList.update ?k ?e out) k = key_step rt k ?e (map_of out k)"
      using None by (auto simp: update_conv' key_step_def)
    finally show ?thesis by simp
  next
    case (Some cur)
    let ?v = "dup_step rt cur ?e"
    have "map_of (fst (dedup_edges rt im (a # es) (out, n))) k
        = map_of (fst (dedup_edges rt im es (AList.update ?k ?v out, n + 1))) k"
      using Some by (simp add: Let_def dup_step_def)
    also have "\<dots> = fold (key_step rt k) (map (remap_edge rt im) es)
        (map_of (AList.update ?k ?v out) k)" by (rule Cons.IH)
    also have "map_of (AList.update ?k ?v out) k = key_step rt k ?e (map_of out k)"
      using Some by (auto simp: update_conv' key_step_def)
    finally show ?thesis by simp
  qed
qed

lemma key_fold_filter:
  "fold (key_step rt k) R acc = fold (key_step rt k) (filter (\<lambda>e. edge_key_of e = k) R) acc"
  by (induction R arbitrary: acc) (simp_all add: key_step_def)

lemma key_fold_group:
  assumes "\<forall>e\<in>set gs. edge_key_of e = k"
  shows "fold (key_step rt k) gs (Some g) = Some (foldl (dup_step rt) g gs)"
  using assms by (induction gs arbitrary: g) (simp_all add: key_step_def)

lemma edges_phase_group:
  assumes "filter (\<lambda>e. edge_key_of e = k) (map (remap_edge rt (id_map_of rt ns)) es) = g # gs"
  shows "map_of (fst (edges_phase rt ns es)) k = Some (foldl (dup_step rt) g gs)"
proof -
  let ?R = "map (remap_edge rt (id_map_of rt ns)) es"
  have "\<forall>e\<in>set (filter (\<lambda>e. edge_key_of e = k) ?R). edge_key_of e = k"
    by simp
  then have all: "\<forall>e\<in>set (g # gs). edge_key_of e = k"
    unfolding assms .
  have "map_of (fst (edges_phase rt ns es)) k = fold (key_step rt k) ?R None"
    by (simp add: edges_phase_def dedup_map_of)
  also have "\<dots> = fold (key_step rt k) (g # gs) None"
    using key_fold_filter [of rt k ?R None] assms by simp
  also have "\<dots> = fold (key_step rt k) gs (Some g)"
    using all by (simp add: key_step_def)
  also have "\<dots> = Some (foldl (dup_step rt) g gs)"
    using all by (intro key_fold_group) simp
  finally show ?thesis .
qed

lemma str_in_Nil [simp]: "str_in [] s"
  by (cases s) simp_all

lemma snippet_absorb:
  "snippet (evidence (absorb rt w l)) = append_snippet (snippet (evidence w)) (snippet (evidence l))"
  by (auto simp: absorb_def append_snippet_def Let_def)

lemma same_but_merged_refl: "same_but_merged g g"
  by (simp add: same_but_merged_def)

lemma same_but_merged_absorb:
  "same_but_merged g' g \<Longrightarrow> same_but_merged (absorb rt g' l) g"
  by (auto simp: same_but_merged_def absorb_def Let_def)

lemma same_but_merged_confidence:
  "same_but_merged g' g \<Longrightarrow> confidence g' = confidence g"
  by (auto simp: same_but_merged_def dest: arg_cong [where f = confidence])

lemma survivor_is_first_highest:
  assumes "same_but_merged g' g"
  shows "same_but_merged (foldl (dup_step rt) g' gs) (first_highest g gs)"
  using assms
proof (induction gs arbitrary: g' g)
  case Nil
  then show ?case by (simp add: first_highest_def)
next
  case (Cons e gs)
  have c: "confidence g' = confidence g"
    using Cons.prems by (rule same_but_merged_confidence)
  show ?case
  proof (cases "confidence e \<le> confidence g'")
    case True
    have "same_but_merged (dup_step rt g' e) g"
      using True Cons.prems by (simp add: dup_step_def same_but_merged_absorb)
    from Cons.IH [OF this] show ?thesis
      using True c by (simp add: first_highest_def)
  next
    case False
    have "same_but_merged (dup_step rt g' e) e"
      using False by (simp add: dup_step_def same_but_merged_absorb same_but_merged_refl)
    from Cons.IH [OF this] show ?thesis
      using False c by (simp add: first_highest_def)
  qed
qed

lemma survivor_snippet:
  "snippet (evidence (foldl (dup_step rt) g gs)) =
     merged_snippet (confidence g, snippet (evidence g))
       (map (\<lambda>e. (confidence e, snippet (evidence e))) gs)"
proof (induction gs arbitrary: g)
  case Nil
  show ?case by simp
next
  case (Cons e gs)
  have le: "dup_step rt g e = absorb rt g e" if "confidence e \<le> confidence g"
    using that by (simp add: dup_step_def)
  have gt: "dup_step rt g e = absorb rt e g" if "\<not> confidence e \<le> confidence g"
    using that by (simp add: dup_step_def)
  have "snippet (evidence (foldl (dup_step rt) g (e # gs))) =
      merged_snippet (confidence (dup_step rt g e), snippet (evidence (dup_step rt g e)))
       (map (\<lambda>e. (confidence e, snippet (evidence e))) gs)"
    by (simp add: Cons.IH)
  then show ?case
    by (cases "confidence e \<le> confidence g") (simp_all add: le gt snippet_absorb not_le)
qed

lemma survivor_duplicate:
  assumes "runtime_ok rt" and "gs \<noteq> []"
  shows "pys ''duplicate'' \<in> set (flags (foldl (dup_step rt) g gs))"
proof -
  from assms(2) obtain gs' e where gs: "gs = gs' @ [e]"
    by (metis rev_exhaust)
  show ?thesis
    unfolding gs using absorb_flags(2) [OF assms(1)] by (simp add: dup_step_def)
qed

lemma unique_survivor:
  assumes "distinct (map fst out)"
    and "\<And>k e. (k, e) \<in> set out \<Longrightarrow> edge_key_of (f k e) = k"
    and "map_of out k = Some s"
  shows "filter (\<lambda>e. edge_key_of e = k) (map (\<lambda>(k, e). f k e) out) = [f k s]"
  using assms
proof (induction out)
  case Nil
  then show ?case by simp
next
  case (Cons p out)
  obtain k' e' where p: "p = (k', e')" by (cases p)
  have key': "edge_key_of (f k' e') = k'" using Cons.prems(2) [of k' e'] by (simp add: p)
  have keys: "\<And>k e. (k, e) \<in> set out \<Longrightarrow> edge_key_of (f k e) = k"
    using Cons.prems(2) by simp
  have d: "distinct (map fst out)" and fresh: "k' \<notin> fst ` set out"
    using Cons.prems(1) by (simp_all add: p)
  show ?case
  proof (cases "k' = k")
    case True
    then have s: "e' = s" using Cons.prems(3) by (simp add: p)
    have "filter (\<lambda>e. edge_key_of e = k) (map (\<lambda>(k, e). f k e) out) = []"
    proof -
      have "edge_key_of (f k2 e2) \<noteq> k" if "(k2, e2) \<in> set out" for k2 e2
        using keys [OF that] fresh that True by force
      then show ?thesis by (auto simp: filter_empty_conv)
    qed
    then show ?thesis using True s key' by (simp add: p)
  next
    case False
    then have "map_of out k = Some s" using Cons.prems(3) by (simp add: p)
    from Cons.IH [OF d keys this] show ?thesis using False key' by (simp add: p)
  qed
qed

text \<open>The flags of a merged edge are rebuilt from a set, without repetition.\<close>

lemma survivor_flags_distinct:
  assumes "runtime_ok rt" and "gs \<noteq> []"
  shows "distinct (flags (foldl (dup_step rt) g gs))"
proof -
  from assms(2) obtain gs' e where gs: "gs = gs' @ [e]"
    by (metis rev_exhaust)
  show ?thesis
    unfolding gs using absorb_flags(1) [OF assms(1)] by (simp add: dup_step_def)
qed

lemma mark_conflict_count:
  "count_list (flags (mark_conflict e)) (pys ''conflict'') =
     max 1 (count_list (flags e) (pys ''conflict''))"
proof (cases "pys ''conflict'' \<in> set (flags e)")
  case True
  then have "count_list (flags e) (pys ''conflict'') \<noteq> 0"
    using count_list_0_iff [of "flags e" "pys ''conflict''"] by blast
  with True show ?thesis by (simp add: mark_conflict_def Let_def)
next
  case False
  then have "count_list (flags e) (pys ''conflict'') = 0"
    by (rule count_notin)
  with False show ?thesis by (simp add: mark_conflict_def Let_def)
qed

text \<open>
  An edge that survives the deduplication is the only edge of its key, or it comes out of a
  merge, and then its flags went through a set.
\<close>

lemma survivor_alone_or_merged:
  assumes "runtime_ok rt" and "(k, e) \<in> set (fst (edges_phase rt ns es))"
  shows "filter (\<lambda>x. edge_key_of x = k) (map (remap_edge rt (id_map_of rt ns)) es) = [e] \<or>
         distinct (flags e)"
proof -
  let ?out = "fst (edges_phase rt ns es)"
  let ?G = "filter (\<lambda>x. edge_key_of x = k) (map (remap_edge rt (id_map_of rt ns)) es)"
  have "distinct (map fst (fst (dedup_edges rt (id_map_of rt ns) es ([], 0))))"
    by (rule dedup_edges_distinct) simp
  then have d: "distinct (map fst ?out)" by (simp add: edges_phase_def)
  have look: "map_of ?out k = Some e"
    using d assms(2) by (rule map_of_is_SomeI)
  show ?thesis
  proof (cases ?G)
    case Nil
    have "map_of ?out k = fold (key_step rt k) (map (remap_edge rt (id_map_of rt ns)) es) None"
      by (simp add: edges_phase_def dedup_map_of)
    also have "\<dots> = fold (key_step rt k) ?G None"
      by (rule key_fold_filter)
    also have "\<dots> = None" by (simp add: Nil)
    finally show ?thesis using look by simp
  next
    case (Cons g gs)
    from edges_phase_group [OF Cons] look have e: "e = foldl (dup_step rt) g gs" by simp
    show ?thesis
    proof (cases "gs = []")
      case True
      then show ?thesis using Cons e by simp
    next
      case False
      then show ?thesis
        unfolding e using survivor_flags_distinct [OF assms(1)] by blast
    qed
  qed
qed

section \<open>Claims on the graph normaliser\<close>

lemmas merge_eval = mk_edge_def two_nodes_def edge_ab_def edges_c3_def edges_c4_def edge_c5_def
  merge_synonyms_def nodes_phase_def edges_phase_def id_map_of_def node_key_def
  normalize_name_def ABBREV_def remap_edge_def edge_key_of_def absorb_def by_pair_of_def
  by_pair_add_def mark_conflict_def survivors_def in_conflict_def
  ensure_id_def dict_get_def rt0_def ascii_lower_def pys_def strip_def isspace_def keeps_def
  Let_def

subsection \<open>Duplicate edges\<close>

text \<open>
  Two edges with the key \<open>(a, b, is_a)\<close> and the confidences 0.5 and 0.75: the second one
  is kept, with the snippet of the first one after its own, and flagged.
\<close>

lemma duplicates_merged_example:
  "map_option (\<lambda>(ns, es, st). map (\<lambda>e. (confidence e, snippet (evidence e), flags e)) es)
     (merge_synonyms rt0 two_nodes edges_c3)
   = Some [(0.75, pys ''second snippet'' @ [10] @ pys ''first snippet'', [pys ''duplicate''])]"
  by (simp add: merge_eval)

text \<open>
  Claim C3: let \<open>g # gs\<close> be the edges that have the key \<open>k\<close> once rewritten to the merged
  node ids, in the order of the input. \<^verbatim>\<open>merge_synonyms\<close> returns exactly one edge \<open>surv\<close> with
  the key \<open>k\<close>. It is the edge \<open>w\<close> that the rule of the specification selects (the first one
  is kept unless a later one has a strictly higher confidence, which then replaces it), but
  for its flags, its snippet and its confidence, which is that of \<open>w\<close>, or 0.8 times it when
  the edge is in a conflict. Its snippet is built as the specification says: each edge that
  loses has its snippet appended to the snippet of the edge that is kept, when it does not
  occur in it. When the key has more than one edge, \<open>surv\<close> carries the flag \<open>duplicate\<close>;
  when it has one edge and no conflict, \<open>surv\<close> is that edge.
\<close>

theorem duplicates_merged:
  assumes "runtime_ok rt"
    and "filter (\<lambda>e. edge_key_of e = k) (map (remap_edge rt (id_map_of rt ns)) es) = g # gs"
    and "w = first_highest g gs"
  shows "\<exists>ns' es' st surv. merge_synonyms rt ns es = Some (ns', es', st) \<and>
           filter (\<lambda>e. edge_key_of e = k) es' = [surv] \<and>
           surv\<lparr>flags := flags w, confidence := confidence w,
                evidence := (evidence surv)\<lparr>snippet := snippet (evidence w)\<rparr>\<rparr> = w \<and>
           confidence surv =
             (if in_conflict es' surv then clamp01 (confidence w * 0.8) else confidence w) \<and>
           snippet (evidence surv) =
             merged_snippet (confidence g, snippet (evidence g))
               (map (\<lambda>e. (confidence e, snippet (evidence e))) gs) \<and>
           (gs = [] \<or> pys ''duplicate'' \<in> set (flags surv)) \<and>
           (gs \<noteq> [] \<or> in_conflict es' surv \<or> surv = g)"
proof -
  let ?out = "fst (edges_phase rt ns es)"
  let ?f = "\<lambda>k e. if other_relation (map fst ?out) k then mark_conflict e else e"
  let ?es' = "map (\<lambda>(k, e). ?f k e) ?out"
  let ?s = "foldl (dup_step rt) g gs"
  from merge_synonyms_result [OF assms(1), of ns es] obtain st where
    r: "merge_synonyms rt ns es = Some (map snd (fst (nodes_phase rt ns)), ?es', st)" by blast
  have look: "map_of ?out k = Some ?s"
    using assms(2) by (rule edges_phase_group)
  then have mem: "(k, ?s) \<in> set ?out" by (rule map_of_SomeD)
  have "distinct (map fst (fst (dedup_edges rt (id_map_of rt ns) es ([], 0))))"
    by (rule dedup_edges_distinct) simp
  then have d: "distinct (map fst ?out)" by (simp add: edges_phase_def)
  have keyf: "edge_key_of (?f k' e') = k'" if "(k', e') \<in> set ?out" for k' e'
    using edges_phase_key [OF that] by simp
  have uniq: "filter (\<lambda>e. edge_key_of e = k) ?es' = [?f k ?s]"
    using d keyf look by (rule unique_survivor [where f = ?f])
  have c: "in_conflict ?es' (?f k ?s) = other_relation (map fst ?out) k"
    by (rule in_conflict_iff [where f = ?f, OF edges_phase_key _ mem]) simp_all
  have sm: "same_but_merged ?s w"
    unfolding assms(3) using same_but_merged_refl by (rule survivor_is_first_highest)
  then have conf: "confidence ?s = confidence w" by (rule same_but_merged_confidence)
  have eq: "?s\<lparr>flags := flags w, evidence := (evidence ?s)\<lparr>snippet := snippet (evidence w)\<rparr>\<rparr> = w"
    using sm by (simp add: same_but_merged_def)
  have snip: "snippet (evidence ?s) =
      merged_snippet (confidence g, snippet (evidence g))
        (map (\<lambda>e. (confidence e, snippet (evidence e))) gs)"
    by (rule survivor_snippet)
  have dup: "gs = [] \<or> pys ''duplicate'' \<in> set (flags ?s)"
    using survivor_duplicate [OF assms(1), of gs g] by blast
  have 1: "(?f k ?s)\<lparr>flags := flags w, confidence := confidence w,
                evidence := (evidence (?f k ?s))\<lparr>snippet := snippet (evidence w)\<rparr>\<rparr> = w"
  proof (cases "other_relation (map fst ?out) k")
    case True
    have "(mark_conflict ?s)\<lparr>flags := flags w, confidence := confidence w,
                evidence := (evidence ?s)\<lparr>snippet := snippet (evidence w)\<rparr>\<rparr>
        = ?s\<lparr>flags := flags w, confidence := confidence w,
                evidence := (evidence ?s)\<lparr>snippet := snippet (evidence w)\<rparr>\<rparr>"
      by (simp add: mark_conflict_def Let_def)
    also have "\<dots> = (?s\<lparr>flags := flags w, evidence := (evidence ?s)\<lparr>snippet := snippet (evidence w)\<rparr>\<rparr>)
        \<lparr>confidence := confidence w\<rparr>" by simp
    also have "\<dots> = w" unfolding eq by simp
    finally show ?thesis using True by simp
  next
    case False
    have "?s\<lparr>flags := flags w, confidence := confidence w,
                evidence := (evidence ?s)\<lparr>snippet := snippet (evidence w)\<rparr>\<rparr>
      = (?s\<lparr>flags := flags w, evidence := (evidence ?s)\<lparr>snippet := snippet (evidence w)\<rparr>\<rparr>)
        \<lparr>confidence := confidence w\<rparr>" by simp
    also have "\<dots> = w" unfolding eq by simp
    finally show ?thesis using False by simp
  qed
  have 2: "confidence (?f k ?s) =
             (if in_conflict ?es' (?f k ?s) then clamp01 (confidence w * 0.8) else confidence w)"
    unfolding c using conf by simp
  have 3: "snippet (evidence (?f k ?s)) =
      merged_snippet (confidence g, snippet (evidence g))
        (map (\<lambda>e. (confidence e, snippet (evidence e))) gs)"
    using snip by simp
  have 4: "gs = [] \<or> pys ''duplicate'' \<in> set (flags (?f k ?s))"
    using dup mark_conflict_flags(3) [of "pys ''duplicate''" ?s] by auto
  have 5: "gs \<noteq> [] \<or> in_conflict ?es' (?f k ?s) \<or> ?f k ?s = g"
    unfolding c by auto
  show ?thesis
    using r uniq 1 2 3 4 5 by blast
qed


theorem duplicates_merged_witness:
  "runtime_ok rt0 \<and>
   filter (\<lambda>e. edge_key_of e = (pys ''a'', pys ''b'', pys ''is_a''))
     (map (remap_edge rt0 (id_map_of rt0 two_nodes)) edges_c3)
   = remap_edge rt0 (id_map_of rt0 two_nodes) (edges_c3 ! 0) #
     [remap_edge rt0 (id_map_of rt0 two_nodes) (edges_c3 ! 1)] \<and>
   (\<exists>ns' es' st surv. merge_synonyms rt0 two_nodes edges_c3 = Some (ns', es', st) \<and>
      filter (\<lambda>e. edge_key_of e = (pys ''a'', pys ''b'', pys ''is_a'')) es' = [surv] \<and>
      snippet (evidence surv) =
        merged_snippet (confidence (remap_edge rt0 (id_map_of rt0 two_nodes) (edges_c3 ! 0)),
            snippet (evidence (remap_edge rt0 (id_map_of rt0 two_nodes) (edges_c3 ! 0))))
          (map (\<lambda>e. (confidence e, snippet (evidence e)))
            [remap_edge rt0 (id_map_of rt0 two_nodes) (edges_c3 ! 1)]) \<and>
      pys ''duplicate'' \<in> set (flags surv))"
proof -
  let ?R = "remap_edge rt0 (id_map_of rt0 two_nodes)"
  have h2: "filter (\<lambda>e. edge_key_of e = (pys ''a'', pys ''b'', pys ''is_a'')) (map ?R edges_c3)
      = ?R (edges_c3 ! 0) # [?R (edges_c3 ! 1)]"
    by (simp add: merge_eval)
  from duplicates_merged [OF runtime_ok_rt0 h2 refl]
  obtain ns' es' st surv where
    r: "merge_synonyms rt0 two_nodes edges_c3 = Some (ns', es', st)"
      "filter (\<lambda>e. edge_key_of e = (pys ''a'', pys ''b'', pys ''is_a'')) es' = [surv]"
      "snippet (evidence surv) =
        merged_snippet (confidence (?R (edges_c3 ! 0)), snippet (evidence (?R (edges_c3 ! 0))))
          (map (\<lambda>e. (confidence e, snippet (evidence e))) [?R (edges_c3 ! 1)])"
      "[?R (edges_c3 ! 1)] = [] \<or> pys ''duplicate'' \<in> set (flags surv)"
    by blast
  from r(4) have "pys ''duplicate'' \<in> set (flags surv)" by simp
  with r(1-3) runtime_ok_rt0 h2 show ?thesis by blast
qed

subsection \<open>Conflicts\<close>





text \<open>On these two edges both are in a conflict, and both end with the flag once.\<close>

lemma conflict_flagged_once_example:
  "map_option (\<lambda>(ns, es, st).
       map (\<lambda>e. (relation e, in_conflict es e, flags e, confidence e)) es)
     (merge_synonyms rt0 two_nodes (edges_c4 []))
   = Some [(pys ''is_a'', True, [pys ''conflict''], 0.4),
           (pys ''explains'', True, [pys ''conflict''], 0.6)]"
  by (simp add: merge_eval clamp01_def)

subsection \<open>Endpoints\<close>

text \<open>
  Claim C5, as stated, fails: the target \<open>c\<close> of \<open>edge_c5\<close> is the id of no node of the
  input; the edge is returned as it is, and \<open>c\<close> is the id of no node of the output.
\<close>

theorem dangling_endpoint_kept:
  "map_option (\<lambda>(ns, es, st). (map node_id ns, map target es))
     (merge_synonyms rt0 two_nodes [edge_c5]) = Some ([pys ''a'', pys ''b''], [pys ''c'']) \<and>
   pys ''c'' \<notin> set [pys ''a'', pys ''b'']"
  by (simp add: merge_eval)

text \<open>
  Claim C5, amended: when the source and the target of every edge of the input are ids of
  nodes of the input, \<^verbatim>\<open>merge_synonyms\<close> returns, and the source and the target of every edge
  of the output are ids of nodes of the output. An id that no node of the input has is left
  as it is (\<^verbatim>\<open>id_map.get(e.source, e.source)\<close>).
\<close>

theorem endpoints_reference_nodes:
  assumes "runtime_ok rt"
    and "\<forall>e\<in>set es. source e \<in> node_id ` set ns \<and> target e \<in> node_id ` set ns"
  shows "\<exists>ns' es' st. merge_synonyms rt ns es = Some (ns', es', st) \<and>
           (\<forall>e\<in>set es'. source e \<in> node_id ` set ns' \<and> target e \<in> node_id ` set ns')"
proof -
  obtain kept im nm where np: "nodes_phase rt ns = (kept, im, nm)"
    by (cases "nodes_phase rt ns")
  let ?S = "node_id ` set (map snd kept)"
  let ?out = "fst (edges_phase rt ns es)"
  have im: "id_map_of rt ns = im" by (simp add: id_map_of_def np)
  have ran: "ran im \<subseteq> ?S" and dom: "node_id ` set ns \<subseteq> dom im"
    using nodes_phase_ids [OF np] by simp_all
  have to_S: "dict_get im x x \<in> ?S" if "x \<in> node_id ` set ns" for x
  proof -
    from that dom obtain y where y: "im x = Some y" by blast
    then have "y \<in> ran im" by (auto simp: ran_def)
    with ran y show ?thesis by (auto simp: dict_get_def)
  qed
  have surv: "source e \<in> ?S \<and> target e \<in> ?S" if "(k, e) \<in> set ?out" for k e
  proof (rule edges_phase_pred [where Q = "\<lambda>k e. source e \<in> ?S \<and> target e \<in> ?S", OF _ _ that])
    fix e :: Edge assume "e \<in> set es"
    then show "source (remap_edge rt (id_map_of rt ns) e) \<in> ?S \<and>
               target (remap_edge rt (id_map_of rt ns) e) \<in> ?S"
      using assms(2) to_S by (simp add: im)
  next
    fix k :: edge_key and w l :: Edge
    assume "source w \<in> ?S \<and> target w \<in> ?S"
    then show "source (absorb rt w l) \<in> ?S \<and> target (absorb rt w l) \<in> ?S" by simp
  qed
  from merge_synonyms_result [OF assms(1), of ns es] obtain st where
    r: "merge_synonyms rt ns es =
           Some (map snd (fst (nodes_phase rt ns)),
                 map (\<lambda>(k, e). if other_relation (map fst ?out) k then mark_conflict e else e) ?out,
                 st)" by blast
  have "source e' \<in> ?S \<and> target e' \<in> ?S"
    if "e' \<in> set (map (\<lambda>(k, e). if other_relation (map fst ?out) k then mark_conflict e else e) ?out)"
    for e'
  proof -
    from that obtain k e where ke: "(k, e) \<in> set ?out"
      "e' = (if other_relation (map fst ?out) k then mark_conflict e else e)" by auto
    from surv [OF ke(1)] ke(2) show ?thesis by simp
  qed
  then show ?thesis using r by (simp add: np)
qed


theorem endpoints_reference_nodes_witness:
  "runtime_ok rt0 \<and>
   list_all (\<lambda>e. source e \<in> node_id ` set two_nodes \<and> target e \<in> node_id ` set two_nodes)
     edges_c3 \<and>
   (\<exists>ns' es' st. merge_synonyms rt0 two_nodes edges_c3 = Some (ns', es', st) \<and>
      list_all (\<lambda>e. source e \<in> node_id ` set ns' \<and> target e \<in> node_id ` set ns') es')"
proof -
  have h2: "\<forall>e\<in>set edges_c3. source e \<in> node_id ` set two_nodes \<and>
      target e \<in> node_id ` set two_nodes"
    by (simp add: edges_c3_def edge_ab_def mk_edge_def two_nodes_def)
  show ?thesis
    using endpoints_reference_nodes [OF runtime_ok_rt0 h2] runtime_ok_rt0 h2
    unfolding list_all_iff by blast
qed

section \<open>Properties of the repair\<close>

subsection \<open>Dict operations\<close>

lemma has_setitem [simp]: "has (setitem d k v) k' \<longleftrightarrow> k' = k \<or> has d k'"
  by (auto simp: has_def setitem_def update_conv')

lemma dget_setitem [simp]: "dget (setitem d k v) k' = (if k' = k then v else dget d k')"
  by (simp add: dget_def setitem_def update_conv')

lemma has_setdefault [simp]: "has (setdefault d k v) k' \<longleftrightarrow> k' = k \<or> has d k'"
  by (auto simp: setdefault_def)

lemma dget_setdefault [simp]:
  "dget (setdefault d k v) k' = (if k' = k \<and> \<not> has d k then v else dget d k')"
  by (simp add: setdefault_def)

lemma setdefault_id: "has d k \<Longrightarrow> setdefault d k v = d"
  by (simp add: setdefault_def)

lemma setitem_id: "has d k \<Longrightarrow> dget d k = v \<Longrightarrow> setitem d k v = d"
  by (auto simp: has_def dget_def setitem_def intro: update_triv)

lemma dget_is_dict_has: "dget d k = PDict x \<Longrightarrow> has d k"
  by (auto simp: dget_def has_def split: option.splits)

lemma dget_is_list_has: "dget d k = PList x \<Longrightarrow> has d k"
  by (auto simp: dget_def has_def split: option.splits)

lemma edge_keys_distinct:
  "distinct [pys ''flags'', pys ''check_reason'', pys ''evidence'', pys ''id'', pys ''source'',
             pys ''target'', pys ''relation'']"
  "distinct [pys ''relation'', pys ''target'', pys ''source'', pys ''id'', pys ''evidence'',
             pys ''check_reason'', pys ''flags'']"
  by (simp_all add: pys_def)

lemma evidence_keys_distinct:
  "distinct [pys ''title'', pys ''snippet'', pys ''url'', pys ''domain'']"
  "distinct [pys ''domain'', pys ''url'', pys ''snippet'', pys ''title'']"
  by (simp_all add: pys_def)

lemma draft_keys_distinct:
  "distinct [pys ''concept'', pys ''nodes'', pys ''edges'', pys ''meta'']"
  "distinct [pys ''meta'', pys ''edges'', pys ''nodes'', pys ''concept'']"
  by (simp_all add: pys_def)

lemma meta_keys_distinct:
  "distinct [pys ''generated_at'', pys ''version'', pys ''checker_summary'']"
  "distinct [pys ''checker_summary'', pys ''version'', pys ''generated_at'']"
  by (simp_all add: pys_def)

lemmas keys_neq = edge_keys_distinct [simplified] evidence_keys_distinct [simplified]
  draft_keys_distinct [simplified] meta_keys_distinct [simplified]

subsection \<open>The repair of one edge\<close>

lemma fix_edge_complete:
  assumes "complete_edge (PDict d)"
  shows "fix_edge rt nd d = (d, 0)"
proof -
  from assms obtain ev where ev: "dget d (pys ''evidence'') = PDict ev"
    by (auto simp: complete_edge_def split: pyval.splits)
  from assms ev have h: "has d (pys ''flags'')" "is_list (dget d (pys ''flags''))"
    "has d (pys ''check_reason'')" "has ev (pys ''title'')" "has ev (pys ''snippet'')"
    "has ev (pys ''url'')" "has ev (pys ''domain'')" "\<not> needs_id d"
    by (simp_all add: complete_edge_def)
  have e: "has d (pys ''evidence'')" using ev by (rule dget_is_dict_has)
  show ?thesis
    by (simp add: fix_edge_def Let_def h ev setdefault_id setitem_id [OF e ev])
qed

lemma truthy_sha: "runtime_ok rt \<Longrightarrow> truthy (PStr (sha12 rt s))"
proof -
  assume "runtime_ok rt"
  then have "length (sha12 rt s) = 12" by (simp add: runtime_ok_def)
  then have "sha12 rt s \<noteq> []" by auto
  then show ?thesis by (simp add: truthy_def)
qed

lemma fix_edge_result_complete:
  assumes "runtime_ok rt"
  shows "complete_edge (PDict (fst (fix_edge rt nd d)))"
proof -
  define bad_flags where "bad_flags = (\<not> has d (pys ''flags'') \<or> \<not> is_list (dget d (pys ''flags'')))"
  define ee1 where "ee1 = (if bad_flags then setitem d (pys ''flags'') (PList []) else d)"
  define ee2 where "ee2 = setdefault ee1 (pys ''check_reason'') PNone"
  define ev0 where "ev0 = (case dget ee2 (pys ''evidence'') of PDict d \<Rightarrow> d | _ \<Rightarrow> [])"
  define ev1 where "ev1 = (if \<not> has ev0 (pys ''title'') then setitem ev0 (pys ''title'') (PStr []) else ev0)"
  define ev2 where "ev2 = (if \<not> has ev1 (pys ''snippet'') then setitem ev1 (pys ''snippet'') (PStr []) else ev1)"
  define ev3 where "ev3 = (if \<not> has ev2 (pys ''url'') then setitem ev2 (pys ''url'') PNone else ev2)"
  define tid where "tid = py_str rt (py_or (dget ee2 (pys ''target'')) (PStr []))"
  define ev4 where "ev4 = (if \<not> has ev3 (pys ''domain'')
                 then setitem ev3 (pys ''domain'')
                        (case nd tid of None \<Rightarrow> PNone | Some dm \<Rightarrow> PStr dm)
                 else ev3)"
  define ee3 where "ee3 = setitem ee2 (pys ''evidence'') (PDict ev4)"
  define ee4 where "ee4 = (if needs_id ee3
                 then setitem ee3 (pys ''id'')
                        (PStr (sha12 rt (py_str rt (dget ee3 (pys ''source'')) @ pys ''|'' @
                                         py_str rt (dget ee3 (pys ''relation'')) @ pys ''|'' @
                                         py_str rt (dget ee3 (pys ''target'')))))
                 else ee3)"
  have r: "fst (fix_edge rt nd d) = ee4"
    unfolding fix_edge_def Let_def ee4_def ee3_def ev4_def tid_def ev3_def ev2_def ev1_def ev0_def
      ee2_def ee1_def bad_flags_def by simp
  have f1: "has ee1 (pys ''flags'') \<and> is_list (dget ee1 (pys ''flags''))"
    by (auto simp: ee1_def bad_flags_def is_list_def)
  have f2: "has ee2 (pys ''flags'') \<and> is_list (dget ee2 (pys ''flags'')) \<and> has ee2 (pys ''check_reason'')"
    using f1 by (simp add: ee2_def keys_neq)
  have e4: "has ev4 (pys ''title'') \<and> has ev4 (pys ''snippet'') \<and> has ev4 (pys ''url'') \<and>
      has ev4 (pys ''domain'')"
    by (simp add: ev4_def ev3_def ev2_def ev1_def)
  have f3: "has ee3 (pys ''flags'') \<and> is_list (dget ee3 (pys ''flags'')) \<and>
      has ee3 (pys ''check_reason'') \<and> dget ee3 (pys ''evidence'') = PDict ev4"
    using f2 by (simp add: ee3_def keys_neq)
  have f4: "has ee4 (pys ''flags'') \<and> is_list (dget ee4 (pys ''flags'')) \<and>
      has ee4 (pys ''check_reason'') \<and> dget ee4 (pys ''evidence'') = PDict ev4"
    using f3 by (simp add: ee4_def keys_neq)
  have id: "\<not> needs_id ee4"
  proof (cases "needs_id ee3")
    case True
    then show ?thesis
      using truthy_sha [OF assms] by (simp add: ee4_def needs_id_def)
  next
    case False
    then show ?thesis by (simp add: ee4_def)
  qed
  show ?thesis
    unfolding r using f4 e4 id by (simp add: complete_edge_def)
qed

lemma fix_edges_fst:
  "fst (fix_edges rt nd es (acc, f)) =
     acc @ concat (map (\<lambda>e. case e of PDict d \<Rightarrow> [PDict (fst (fix_edge rt nd d))] | _ \<Rightarrow> []) es)"
proof (induction es arbitrary: acc f)
  case Nil
  show ?case by simp
next
  case (Cons e es)
  show ?case
    by (cases e) (simp_all add: Cons.IH case_prod_beta)
qed

lemma fix_edges_length:
  "length (fst (fix_edges rt nd es ([], f))) = length (filter is_dict es)"
proof -
  have "length (concat (map (\<lambda>e. case e of PDict d \<Rightarrow> [PDict (fst (fix_edge rt nd d))] | _ \<Rightarrow> []) es))
      = length (filter is_dict es)"
  proof (induction es)
    case Nil
    show ?case by simp
  next
    case (Cons e es)
    then show ?case by (cases e) (simp_all add: is_dict_def)
  qed
  then show ?thesis by (simp add: fix_edges_fst)
qed

lemma fix_edges_result_complete:
  assumes "runtime_ok rt"
  shows "list_all complete_edge (fst (fix_edges rt nd es ([], f)))"
proof -
  have "list_all complete_edge
      (concat (map (\<lambda>e. case e of PDict d \<Rightarrow> [PDict (fst (fix_edge rt nd d))] | _ \<Rightarrow> []) es))"
  proof (induction es)
    case Nil
    show ?case by simp
  next
    case (Cons e es)
    then show ?case
      using fix_edge_result_complete [OF assms] by (cases e) simp_all
  qed
  then show ?thesis by (simp add: fix_edges_fst)
qed

lemma fix_edges_complete:
  assumes "list_all complete_edge es"
  shows "fix_edges rt nd es (acc, f) = (acc @ es, f)"
  using assms
proof (induction es arbitrary: acc f)
  case Nil
  show ?case by simp
next
  case (Cons e es)
  from Cons.prems have c: "complete_edge e" and rest: "list_all complete_edge es" by simp_all
  from c obtain d where d: "e = PDict d"
    by (cases e) (simp_all add: complete_edge_def)
  have "fix_edge rt nd d = (d, 0)"
    using c unfolding d by (rule fix_edge_complete)
  then show ?case
    using Cons.IH [OF rest] by (simp add: d)
qed

subsection \<open>The repair of a draft\<close>

lemma has_nonempty: "has d k \<Longrightarrow> d \<noteq> []"
  by (auto simp: has_def)

lemma py_or_dict: "has m k \<Longrightarrow> py_or (PDict m) (PDict []) = PDict m"
  by (simp add: py_or_def truthy_def has_nonempty)

lemma py_or_list: "py_or (PList es) (PList []) = PList es"
  by (simp add: py_or_def truthy_def)

lemma top_defaults_id:
  assumes "has g (pys ''concept'')" "has g (pys ''nodes'')" "has g (pys ''edges'')" "has g (pys ''meta'')"
  shows "top_defaults g = (g, 0)"
  using assms by (simp add: top_defaults_def Let_def setdefault_id)

lemma top_defaults_has:
  "has (fst (top_defaults g)) (pys ''concept'')" "has (fst (top_defaults g)) (pys ''nodes'')"
  "has (fst (top_defaults g)) (pys ''edges'')" "has (fst (top_defaults g)) (pys ''meta'')"
  by (simp_all add: top_defaults_def Let_def)

lemma top_defaults_dget:
  "dget (fst (top_defaults g)) (pys ''nodes'') = (if has g (pys ''nodes'') then dget g (pys ''nodes'') else PList [])"
  "dget (fst (top_defaults g)) (pys ''edges'') = (if has g (pys ''edges'') then dget g (pys ''edges'') else PList [])"
  by (simp_all add: top_defaults_def Let_def keys_neq)

lemma meta_defaults_id:
  assumes "has m (pys ''generated_at'')" "has m (pys ''version'')" "has m (pys ''checker_summary'')"
  shows "meta_defaults m = (m, 0)"
  using assms by (simp add: meta_defaults_def Let_def setdefault_id)

lemma meta_defaults_has:
  "has (fst (meta_defaults m)) (pys ''generated_at'')" "has (fst (meta_defaults m)) (pys ''version'')"
  "has (fst (meta_defaults m)) (pys ''checker_summary'')"
  by (simp_all add: meta_defaults_def Let_def)

text \<open>What \<^verbatim>\<open>light_fix\<close> returns, when it returns.\<close>

lemma light_fix_Inr:
  assumes "light_fix rt g errs = Inr (g', n)"
  shows "\<exists>meta0 ns es f.
           py_dict (py_or (dget (fst (top_defaults g)) (pys ''meta'')) (PDict [])) = Inr meta0 \<and>
           py_list (py_or (dget (fst (top_defaults g)) (pys ''nodes'')) (PList [])) = Inr ns \<and>
           py_list (py_or (dget (fst (top_defaults g)) (pys ''edges'')) (PList [])) = Inr es \<and>
           g' = setitem (setitem (fst (top_defaults g)) (pys ''meta'') (PDict (fst (meta_defaults meta0))))
                  (pys ''edges'') (PList (fst (fix_edges rt (index_nodes rt ns) es ([], f))))"
  using assms
  by (auto simp: light_fix_def keys_neq case_prod_beta split: sum.splits)

lemma light_fix_complete:
  assumes "complete_draft g"
  shows "light_fix rt g errs = Inr (g, 0)"
proof -
  from assms obtain m where m: "dget g (pys ''meta'') = PDict m"
    by (auto simp: complete_draft_def split: pyval.splits)
  from assms obtain es where es: "dget g (pys ''edges'') = PList es"
    by (auto simp: complete_draft_def split: pyval.splits)
  from assms obtain ns where ns: "py_list (py_or (dget g (pys ''nodes'')) (PList [])) = Inr ns"
    by (auto simp: complete_draft_def split: sum.splits)
  from assms m es have h: "has g (pys ''concept'')" "has g (pys ''nodes'')"
    "has m (pys ''generated_at'')" "has m (pys ''version'')" "has m (pys ''checker_summary'')"
    "list_all complete_edge es"
    by (simp_all add: complete_draft_def)
  have hm: "has g (pys ''meta'')" using m by (rule dget_is_dict_has)
  have he: "has g (pys ''edges'')" using es by (rule dget_is_list_has)
  have t: "top_defaults g = (g, 0)"
    using h(1,2) he hm by (rule top_defaults_id)
  have md: "meta_defaults m = (m, 0)"
    using h(3-5) by (rule meta_defaults_id)
  have pm: "py_dict (py_or (dget g (pys ''meta'')) (PDict [])) = Inr m"
    by (simp add: m py_or_dict [OF h(3)] py_dict_def)
  have g5: "setitem g (pys ''meta'') (PDict m) = g"
    using hm m by (rule setitem_id)
  have pe: "py_list (py_or (dget g (pys ''edges'')) (PList [])) = Inr es"
    by (simp add: es py_or_list py_list_def)
  have fe: "fix_edges rt (index_nodes rt ns) es ([], 0) = (es, 0)"
    using fix_edges_complete [OF h(6), of rt "index_nodes rt ns" "[]" 0] by simp
  have ge: "setitem g (pys ''edges'') (PList es) = g"
    using he es by (rule setitem_id)
  show ?thesis
    by (simp add: light_fix_def t pm md g5 ns pe fe ge keys_neq)
qed

lemma light_fix_result_complete:
  assumes "runtime_ok rt" and "light_fix rt g errs = Inr (g', n)"
  shows "complete_draft g'"
proof -
  let ?g0 = "fst (top_defaults g)"
  from light_fix_Inr [OF assms(2)] obtain meta0 ns es f where
    r: "py_list (py_or (dget ?g0 (pys ''nodes'')) (PList [])) = Inr ns"
       "g' = setitem (setitem ?g0 (pys ''meta'') (PDict (fst (meta_defaults meta0))))
                  (pys ''edges'') (PList (fst (fix_edges rt (index_nodes rt ns) es ([], f))))"
    by blast
  have 1: "has g' (pys ''concept'')" "has g' (pys ''nodes'')"
    by (simp_all add: r(2) top_defaults_has)
  have 2: "dget g' (pys ''meta'') = PDict (fst (meta_defaults meta0))"
    by (simp add: r(2) keys_neq)
  have 4: "dget g' (pys ''nodes'') = dget ?g0 (pys ''nodes'')"
    by (simp add: r(2) keys_neq)
  have 5: "dget g' (pys ''edges'') = PList (fst (fix_edges rt (index_nodes rt ns) es ([], f)))"
    by (simp add: r(2))
  show ?thesis
    unfolding complete_draft_def 2 4 5
    using 1 meta_defaults_has r(1) fix_edges_result_complete [OF assms(1)] by simp
qed

subsection \<open>Valid drafts\<close>

lemma required_has: "required d k P \<Longrightarrow> has d k \<and> P (dget d k)"
  by (auto simp: required_def has_def dget_def split: option.splits)

lemma optional_has: "optional d k P \<Longrightarrow> has d k \<Longrightarrow> P (dget d k)"
  by (auto simp: optional_def has_def dget_def split: option.splits)

lemma valid_spelled_out_complete:
  assumes "valid_Edge rt e" and "spelled_out e"
  shows "complete_edge e"
proof -
  from assms(2) obtain d where d: "e = PDict d"
    by (cases e) (simp_all add: spelled_out_def)
  from assms(2) obtain ev where ev: "dget d (pys ''evidence'') = PDict ev"
    unfolding d by (auto simp: spelled_out_def split: pyval.splits)
  from assms(2) ev have s: "has d (pys ''flags'')" "has d (pys ''check_reason'')"
    "has ev (pys ''url'')" "has ev (pys ''domain'')" "\<not> needs_id d"
    unfolding d by (simp_all add: spelled_out_def)
  from assms(1) have v: "optional d (pys ''flags'') (v_list v_str)"
    "required d (pys ''evidence'') valid_Evidence"
    unfolding d by (simp_all add: valid_Edge_def)
  have "v_list v_str (dget d (pys ''flags''))"
    using optional_has [OF v(1) s(1)] .
  then have fl: "is_list (dget d (pys ''flags''))"
    by (auto simp: v_list_def is_list_def split: pyval.splits)
  have "valid_Evidence (PDict ev)"
    using required_has [OF v(2)] ev by simp
  then have "required ev (pys ''title'') v_str" "required ev (pys ''snippet'') v_str"
    by (simp_all add: valid_Evidence_def)
  then have t: "has ev (pys ''title'')" "has ev (pys ''snippet'')"
    using required_has by blast+
  show ?thesis
    unfolding d using s fl t ev by (simp add: complete_edge_def)
qed

lemma valid_spelled_out_draft:
  assumes "validate_graph rt g" and "all_spelled_out g"
  shows "complete_draft g"
proof -
  from assms(1) have r: "required g (pys ''concept'') v_str"
    "required g (pys ''nodes'') (v_list (valid_Node rt))"
    "required g (pys ''edges'') (v_list (valid_Edge rt))"
    "required g (pys ''meta'') (valid_Meta rt)"
    by (simp_all add: validate_graph_def)
  have c: "has g (pys ''concept'')" "has g (pys ''nodes'')"
    using required_has [OF r(1)] required_has [OF r(2)] by simp_all
  have "v_list (valid_Node rt) (dget g (pys ''nodes''))"
    using required_has [OF r(2)] by simp
  then obtain ns where ns: "dget g (pys ''nodes'') = PList ns"
    by (auto simp: v_list_def split: pyval.splits)
  have "v_list (valid_Edge rt) (dget g (pys ''edges''))"
    using required_has [OF r(3)] by simp
  then obtain es where es: "dget g (pys ''edges'') = PList es" "list_all (valid_Edge rt) es"
    by (auto simp: v_list_def split: pyval.splits)
  have "valid_Meta rt (dget g (pys ''meta''))"
    using required_has [OF r(4)] by simp
  then obtain m where m: "dget g (pys ''meta'') = PDict m"
    "required m (pys ''generated_at'') v_str" "required m (pys ''version'') v_str"
    "required m (pys ''checker_summary'') (valid_CheckerSummary rt)"
    by (auto simp: valid_Meta_def split: pyval.splits)
  have hm: "has m (pys ''generated_at'')" "has m (pys ''version'')" "has m (pys ''checker_summary'')"
    using required_has [OF m(2)] required_has [OF m(3)] required_has [OF m(4)] by simp_all
  have "list_all spelled_out es"
    using assms(2) es(1) by (simp add: all_spelled_out_def)
  then have "list_all complete_edge es"
    using es(2) valid_spelled_out_complete by (auto simp: list_all_iff)
  then show ?thesis
    unfolding complete_draft_def using c hm by (simp add: m(1) es(1) ns py_or_list py_list_def)
qed

section \<open>The repair on examples\<close>

subsection \<open>Lookups in a dict that is written out\<close>

lemma lookup_simps:
  "has [] k = False"
  "has ((PStr k', v) # d) k = (k = k' \<or> has d k)"
  "dget [] k = PNone"
  "dget ((PStr k', v) # d) k = (if k = k' then v else dget d k)"
  by (auto simp: has_def dget_def)

lemma required_iff: "required d k P \<longleftrightarrow> has d k \<and> P (dget d k)"
  by (auto simp: required_def has_def dget_def split: option.splits)

lemma optional_iff: "optional d k P \<longleftrightarrow> (has d k \<longrightarrow> P (dget d k))"
  by (auto simp: optional_def has_def dget_def split: option.splits)

subsection \<open>The drafts \<open>draft_of es\<close>\<close>

text \<open>
  A draft \<open>draft_of es\<close> has its four keys, no node and a complete \<^verbatim>\<open>meta\<close>: it is valid when
  its edges are, and \<^verbatim>\<open>light_fix\<close> changes its edges only.
\<close>

lemma draft_of_has:
  "has (draft_of es) (pys ''concept'')" "has (draft_of es) (pys ''nodes'')"
  "has (draft_of es) (pys ''edges'')" "has (draft_of es) (pys ''meta'')"
  by (simp_all add: draft_of_def lookup_simps pys_def)

lemma draft_of_dget:
  "dget (draft_of es) (pys ''concept'') = PStr (pys ''entropy'')"
  "dget (draft_of es) (pys ''nodes'') = PList []"
  "dget (draft_of es) (pys ''edges'') = PList es"
  "dget (draft_of es) (pys ''meta'') =
     PDict [(PStr (pys ''generated_at''), PStr []),
            (PStr (pys ''version''), PStr (pys ''v1'')),
            (PStr (pys ''checker_summary''), PDict [])]"
  by (simp_all add: draft_of_def lookup_simps pys_def)

lemma draft_of_edges: "setitem (draft_of es) (pys ''edges'') (PList es') = draft_of es'"
  by (simp add: setitem_def draft_of_def pys_def)

lemma light_fix_draft_of:
  "light_fix rt (draft_of es) errs =
     Inr (draft_of (fst (fix_edges rt Map.empty es ([], 0))),
          snd (fix_edges rt Map.empty es ([], 0)))"
proof -
  let ?m = "[(PStr (pys ''generated_at''), PStr []),
             (PStr (pys ''version''), PStr (pys ''v1'')),
             (PStr (pys ''checker_summary''), PDict [])]"
  have hm: "has ?m (pys ''generated_at'')" "has ?m (pys ''version'')"
    "has ?m (pys ''checker_summary'')"
    by (simp_all add: lookup_simps pys_def)
  have t: "top_defaults (draft_of es) = (draft_of es, 0)"
    by (rule top_defaults_id) (rule draft_of_has)+
  have md: "meta_defaults ?m = (?m, 0)" using hm by (rule meta_defaults_id)
  have pm: "py_dict (py_or (dget (draft_of es) (pys ''meta'')) (PDict [])) = Inr ?m"
    by (simp add: draft_of_dget py_or_dict [OF hm(1)] py_dict_def)
  have g5: "setitem (draft_of es) (pys ''meta'') (PDict ?m) = draft_of es"
    by (rule setitem_id) (simp_all add: draft_of_has draft_of_dget)
  have pn: "py_list (py_or (dget (draft_of es) (pys ''nodes'')) (PList [])) = Inr []"
    by (simp add: draft_of_dget py_or_list py_list_def)
  have pe: "py_list (py_or (dget (draft_of es) (pys ''edges'')) (PList [])) = Inr es"
    by (simp add: draft_of_dget py_or_list py_list_def)
  have ix: "index_nodes rt [] = Map.empty" by (simp add: index_nodes_def)
  show ?thesis
    by (simp add: light_fix_def t pm md g5 pn pe ix draft_of_edges case_prod_beta keys_neq)
qed

lemma validate_draft_of: "validate_graph rt (draft_of es) = list_all (valid_Edge rt) es"
proof -
  let ?m = "[(PStr (pys ''generated_at''), PStr []),
             (PStr (pys ''version''), PStr (pys ''v1'')),
             (PStr (pys ''checker_summary''), PDict [])]"
  have m: "valid_Meta rt (PDict ?m)"
    by (simp add: valid_Meta_def valid_CheckerSummary_def required_iff optional_iff
          lookup_simps v_str_def pys_def)
  show ?thesis
    by (simp add: validate_graph_def required_iff draft_of_has draft_of_dget v_str_def
          v_list_def m)
qed

lemma all_spelled_out_draft_of: "all_spelled_out (draft_of es) = list_all spelled_out es"
  by (simp add: all_spelled_out_def draft_of_dget)

subsection \<open>The edge \<open>edge_min\<close>\<close>

text \<open>
  The edge \<open>edge_min\<close> has the fields that the class \<^verbatim>\<open>Edge\<close> requires and no other: it is
  valid. \<^verbatim>\<open>light_fix\<close> gives it \<^verbatim>\<open>flags\<close>, \<^verbatim>\<open>check_reason\<close>, \<^verbatim>\<open>url\<close>, \<^verbatim>\<open>domain\<close> and \<^verbatim>\<open>id\<close>,
  and counts three of them.
\<close>

lemma edge_min_has:
  "has edge_min (pys ''flags'') = False" "has edge_min (pys ''check_reason'') = False"
  "has edge_min (pys ''evidence'') = True" "has edge_min (pys ''id'') = False"
  by (simp_all add: edge_min_def lookup_simps pys_def)

lemma edge_min_dget:
  "dget edge_min (pys ''evidence'') =
     PDict [(PStr (pys ''title''), PStr (pys ''Seed'')),
            (PStr (pys ''snippet''), PStr (pys ''Alpha and beta.''))]"
  "dget edge_min (pys ''id'') = PNone"
  "dget edge_min (pys ''source'') = PStr (pys ''a'')"
  "dget edge_min (pys ''target'') = PStr (pys ''b'')"
  "dget edge_min (pys ''relation'') = PStr (pys ''is_a'')"
  by (simp_all add: edge_min_def lookup_simps pys_def)

lemma fix_edge_min: "fix_edge rt0 Map.empty edge_min = (edge_fixed, 3)"
proof -
  let ?ev = "[(PStr (pys ''title''), PStr (pys ''Seed'')),
              (PStr (pys ''snippet''), PStr (pys ''Alpha and beta.''))]"
  have ev: "has ?ev (pys ''title'')" "has ?ev (pys ''snippet'')"
    "\<not> has ?ev (pys ''url'')" "\<not> has ?ev (pys ''domain'')"
    by (simp_all add: lookup_simps pys_def)
  have tr: "truthy (PStr (pys ''a''))" "truthy (PStr (pys ''b''))" "truthy (PStr (pys ''is_a''))"
    "\<not> truthy PNone"
    by (simp_all add: truthy_def pys_def)
  have "fix_edge rt0 Map.empty edge_min =
     (setitem (setitem (setitem (setitem edge_min (pys ''flags'') (PList []))
         (pys ''check_reason'') PNone)
         (pys ''evidence'') (PDict (setitem (setitem ?ev (pys ''url'') PNone) (pys ''domain'') PNone)))
         (pys ''id'') (PStr (replicate 12 48)), 3)"
    by (simp add: fix_edge_def Let_def edge_min_has edge_min_dget ev tr needs_id_def keys_neq
          setdefault_def py_or_def py_str_def rt0_def)
  also have "\<dots> = (edge_fixed, 3)"
    by (simp add: setitem_def edge_min_def edge_fixed_def pys_def)
  finally show ?thesis .
qed

lemma fix_edges_c6: "fix_edges rt0 Map.empty [PDict edge_min] ([], 0) = ([PDict edge_fixed], 3)"
  by (simp add: fix_edge_min)

lemma fix_edges_c8:
  "fix_edges rt0 Map.empty [PDict edge_min, PStr (pys ''a is a b'')] ([], 0) = ([PDict edge_fixed], 3)"
  by (simp add: fix_edge_min)

lemma valid_edge_min: "valid_Edge rt0 (PDict edge_min)"
  by (simp add: valid_Edge_def valid_Evidence_def required_iff optional_iff edge_min_def
        lookup_simps v_str_def allowed_relations_def pys_def)

lemma valid_edge_fixed: "valid_Edge rt0 (PDict edge_fixed)"
  by (simp add: valid_Edge_def valid_Evidence_def required_iff optional_iff edge_fixed_def
        lookup_simps v_str_def v_opt_str_def v_list_def allowed_relations_def pys_def)

lemma spelled_out_edge_fixed: "spelled_out (PDict edge_fixed)"
  by (simp add: spelled_out_def edge_fixed_def lookup_simps needs_id_def truthy_def pys_def)

lemma fixed_c6_changed: "fixed_c6 \<noteq> draft_c6"
  by (simp add: fixed_c6_def draft_c6_def draft_of_def edge_fixed_def edge_min_def)

section \<open>Claims on the repair\<close>

text \<open>The two drafts of the examples, repaired.\<close>

lemma light_fix_draft_c6: "light_fix rt0 draft_c6 errs = Inr (fixed_c6, 3)"
  by (simp only: draft_c6_def fixed_c6_def light_fix_draft_of fix_edges_c6 fst_conv snd_conv)

lemma light_fix_draft_c8: "light_fix rt0 draft_c8 errs = Inr (fixed_c6, 3)"
  by (simp only: draft_c8_def fixed_c6_def light_fix_draft_of fix_edges_c8 fst_conv snd_conv)

subsection \<open>Valid drafts\<close>




subsection \<open>Idempotence\<close>

text \<open>
  Claim C7: when \<^verbatim>\<open>light_fix\<close> returns a draft \<open>g'\<close>, \<^verbatim>\<open>light_fix\<close> on \<open>g'\<close>, with any list of
  errors, returns \<open>g'\<close> and the count 0. The digest that makes an id has twelve characters
  (\<open>runtime_ok\<close>), so that an id that was computed is not computed again.
\<close>

theorem light_fix_idempotent:
  assumes "runtime_ok rt" and "light_fix rt g errs = Inr (g', n)"
  shows "light_fix rt g' errs' = Inr (g', 0)"
proof -
  from assms have "complete_draft g'" by (rule light_fix_result_complete)
  then show ?thesis by (rule light_fix_complete)
qed

theorem light_fix_idempotent_witness:
  "runtime_ok rt0 \<and> light_fix rt0 draft_c6 [] = Inr (fixed_c6, 3) \<and>
   light_fix rt0 fixed_c6 [] = Inr (fixed_c6, 0)"
  using runtime_ok_rt0 light_fix_draft_c6 [of "[]"]
    light_fix_idempotent [OF runtime_ok_rt0 light_fix_draft_c6 [of "[]"], of "[]"]
  by simp

subsection \<open>Nodes and edges are kept\<close>

text \<open>
  Claim C8, as stated, fails: the list \<^verbatim>\<open>edges\<close> of \<open>draft_c8\<close> has two entries, an edge and a
  string; the loop of \<^verbatim>\<open>light_fix\<close> skips an entry that is not a dict, and the repaired
  draft has one entry.
\<close>

theorem non_dict_edge_dropped:
  "dget draft_c8 (pys ''edges'') = PList [PDict edge_min, PStr (pys ''a is a b'')] \<and>
   light_fix rt0 draft_c8 [] = Inr (fixed_c6, 3) \<and>
   dget fixed_c6 (pys ''edges'') = PList [PDict edge_fixed]"
  using light_fix_draft_c8 [of "[]"]
  by (simp add: draft_c8_def fixed_c6_def draft_of_dget)

text \<open>
  Claim C8, amended: when \<^verbatim>\<open>light_fix\<close> returns, the value of \<^verbatim>\<open>nodes\<close> is the one of the
  input (the empty list when the input has none), and the list \<^verbatim>\<open>edges\<close> of the result has
  as many entries as there are dicts among the entries of
  \<^verbatim>\<open>list(graph_dict.get("edges") or [])\<close>. No entry is lost when all of them are dicts.
\<close>

theorem nodes_and_dict_edges_kept:
  assumes "light_fix rt g errs = Inr (g', n)"
  shows "dget g' (pys ''nodes'') =
           (if has g (pys ''nodes'') then dget g (pys ''nodes'') else PList []) \<and>
         (\<exists>es es'. py_list (py_or (dget g (pys ''edges'')) (PList [])) = Inr es \<and>
                    dget g' (pys ''edges'') = PList es' \<and>
                    length es' = length (filter is_dict es))"
proof -
  let ?g0 = "fst (top_defaults g)"
  from light_fix_Inr [OF assms] obtain meta0 ns es f where
    r: "py_list (py_or (dget ?g0 (pys ''edges'')) (PList [])) = Inr es"
       "g' = setitem (setitem ?g0 (pys ''meta'') (PDict (fst (meta_defaults meta0))))
                  (pys ''edges'') (PList (fst (fix_edges rt (index_nodes rt ns) es ([], f))))"
    by blast
  have n: "dget g' (pys ''nodes'') = dget ?g0 (pys ''nodes'')"
    by (simp add: r(2) keys_neq)
  have e: "dget g' (pys ''edges'') = PList (fst (fix_edges rt (index_nodes rt ns) es ([], f)))"
    by (simp add: r(2))
  have "py_or (dget ?g0 (pys ''edges'')) (PList []) = py_or (dget g (pys ''edges'')) (PList [])"
  proof (cases "has g (pys ''edges'')")
    case True
    then show ?thesis by (simp add: top_defaults_dget)
  next
    case False
    then have "dget g (pys ''edges'') = PNone" by (simp add: has_def dget_def)
    with False show ?thesis by (simp add: top_defaults_dget py_or_def truthy_def)
  qed
  with r(1) have pe: "py_list (py_or (dget g (pys ''edges'')) (PList [])) = Inr es" by simp
  show ?thesis
  proof (intro conjI exI)
    show "dget g' (pys ''nodes'') =
           (if has g (pys ''nodes'') then dget g (pys ''nodes'') else PList [])"
      unfolding n by (rule top_defaults_dget)
    show "py_list (py_or (dget g (pys ''edges'')) (PList [])) = Inr es" by (rule pe)
    show "dget g' (pys ''edges'') = PList (fst (fix_edges rt (index_nodes rt ns) es ([], f)))"
      by (rule e)
    show "length (fst (fix_edges rt (index_nodes rt ns) es ([], f))) = length (filter is_dict es)"
      by (rule fix_edges_length)
  qed
qed

theorem nodes_and_dict_edges_kept_witness:
  "light_fix rt0 draft_c6 [] = Inr (fixed_c6, 3) \<and>
   dget fixed_c6 (pys ''nodes'') =
     (if has draft_c6 (pys ''nodes'') then dget draft_c6 (pys ''nodes'') else PList []) \<and>
   (\<exists>es es'. py_list (py_or (dget draft_c6 (pys ''edges'')) (PList [])) = Inr es \<and>
              dget fixed_c6 (pys ''edges'') = PList es' \<and>
              length es' = length (filter is_dict es))"
  using light_fix_draft_c6 [of "[]"] nodes_and_dict_edges_kept [OF light_fix_draft_c6 [of "[]"]]
  by (rule conjI)

text \<open>On \<open>draft_c6\<close> the one entry is a dict, and it is kept.\<close>

lemma nodes_and_dict_edges_kept_example:
  "dget draft_c6 (pys ''edges'') = PList [PDict edge_min] \<and>
   dget fixed_c6 (pys ''edges'') = PList [PDict edge_fixed] \<and>
   dget draft_c6 (pys ''nodes'') = PList [] \<and> dget fixed_c6 (pys ''nodes'') = PList []"
  by (simp add: draft_c6_def fixed_c6_def draft_of_dget)

end
